theory Spec2Isabelle
  imports Main "HOL-Library.Word" "HOL-Library.Log_Nat" "HOL-Library.Stream"
begin

section \<open>Values shared by the ciphers\<close>

text \<open>
  Python \<open>bytes\<close> are lists of 8-bit words. A Python \<open>str\<close> is carried by its UTF-8
  encoding, so that \<open>.encode()\<close> returns the carried bytes; \<open>len\<close> of a \<open>str\<close> counts
  code points, that is the bytes that are not UTF-8 continuation bytes.
\<close>

type_synonym byte = "8 word"
type_synonym bytes = "byte list"

datatype pydata = Bytes bytes | Str bytes

datatype error =
    ValueError | ZeroDivisionError | AssertionError | AttributeError
  | IndexError | BinasciiError

fun encode :: "pydata \<Rightarrow> bytes" where
  "encode (Bytes b) = b"
| "encode (Str s) = s"

fun py_len :: "pydata \<Rightarrow> nat" where
  "py_len (Bytes b) = length b"
| "py_len (Str s) = length (filter (\<lambda>c. \<not> (128 \<le> unat c \<and> unat c < 192)) s)"

subsection \<open>Hexadecimal text\<close>

text \<open>The lower-case hexadecimal digit of a value below 16, as its ASCII code.\<close>

definition hexchar :: "nat \<Rightarrow> byte" where
  "hexchar d = (if d < 10 then of_nat (48 + d) else of_nat (87 + d))"

text \<open>\<open>binascii.hexlify\<close> and \<open>bytes.hex\<close>: two digits per byte, high nibble first.\<close>

definition hexlify :: "bytes \<Rightarrow> bytes" where
  "hexlify bs = concat (map (\<lambda>b. [hexchar (unat b div 16), hexchar (unat b mod 16)]) bs)"

text \<open>The value of a hexadecimal digit, upper or lower case.\<close>

definition digit_val :: "byte \<Rightarrow> nat option" where
  "digit_val c =
     (let v = unat c in
      if 48 \<le> v \<and> v \<le> 57 then Some (v - 48)
      else if 97 \<le> v \<and> v \<le> 102 then Some (v - 87)
      else if 65 \<le> v \<and> v \<le> 70 then Some (v - 55)
      else None)"

text \<open>
  \<open>int(s, 16)\<close> on a string of hexadecimal digits: \<open>ValueError\<close> on the empty string and
  on any other character. (Python also accepts a sign, a \<open>0x\<close> prefix, underscores and
  surrounding blanks; the only argument the ciphers pass is the output of \<open>hexlify\<close>.)
\<close>

fun int16_digits :: "nat \<Rightarrow> bytes \<Rightarrow> error + nat" where
  "int16_digits acc [] = Inr acc"
| "int16_digits acc (c # cs) =
     (case digit_val c of
        None \<Rightarrow> Inl ValueError
      | Some d \<Rightarrow> int16_digits (16 * acc + d) cs)"

definition int16 :: "bytes \<Rightarrow> error + nat" where
  "int16 s = (if s = [] then Inl ValueError else int16_digits 0 s)"

text \<open>\<open>'%x' % v\<close>: the digits of \<open>v\<close>, most significant first, at least one.\<close>

function hex_digits :: "nat \<Rightarrow> bytes" where
  "hex_digits v = (if v < 16 then [hexchar v] else hex_digits (v div 16) @ [hexchar (v mod 16)])"
  by pat_completeness auto
termination
  by (relation "measure id") auto

text \<open>\<open>('%%0%dx' % (w,)) % v\<close>: the digits of \<open>v\<close>, padded on the left with \<open>0\<close> to width \<open>w\<close>.\<close>

definition format_0x :: "nat \<Rightarrow> nat \<Rightarrow> bytes" where
  "format_0x w v = (let s = hex_digits v in replicate (w - length s) (hexchar 0) @ s)"

text \<open>\<open>binascii.unhexlify\<close>: fails on an odd number of digits and on a non-digit.\<close>

fun unhexlify :: "bytes \<Rightarrow> error + bytes" where
  "unhexlify [] = Inr []"
| "unhexlify [c] = Inl BinasciiError"
| "unhexlify (h # l # cs) =
     (case (digit_val h, digit_val l) of
        (Some a, Some b) \<Rightarrow>
          (case unhexlify cs of
             Inl e \<Rightarrow> Inl e
           | Inr bs \<Rightarrow> Inr (of_nat (16 * a + b) # bs))
      | _ \<Rightarrow> Inl BinasciiError)"

text \<open>\<open>bs.rstrip(b'\x00')\<close>\<close>

definition rstrip0 :: "bytes \<Rightarrow> bytes" where
  "rstrip0 bs = rev (dropWhile (\<lambda>b. b = 0) (rev bs))"

text \<open>
  \<open>range(start, stop, step)\<close> with a positive step, as the list of its values, and
  \<open>range(0, stop, step)\<close> for any step: a zero step raises, and a negative step gives
  the empty range, since \<open>stop\<close> is a length.
\<close>

function range_from :: "nat \<Rightarrow> nat \<Rightarrow> nat \<Rightarrow> nat list" where
  "range_from i stop step =
     (if i < stop \<and> 0 < step then i # range_from (i + step) stop step else [])"
  by pat_completeness auto
termination
  by (relation "measure (\<lambda>(i, stop, step). stop - i)") auto

definition py_range :: "nat \<Rightarrow> int \<Rightarrow> error + nat list" where
  "py_range stop step =
     (if step = 0 then Inl ValueError
      else if step < 0 then Inr []
      else Inr (range_from 0 stop (nat step)))"

text \<open>\<open>pow(a, e, n)\<close> with a non-negative exponent; a zero modulus raises.\<close>

definition pow3 :: "nat \<Rightarrow> nat \<Rightarrow> nat \<Rightarrow> error + nat" where
  "pow3 a e n = (if n = 0 then Inl ValueError else Inr (a ^ e mod n))"

section \<open>rsa.py: the key container\<close>

text \<open>
  The attributes of an \<open>RSAKey\<close> object. \<open>__init__\<close> assigns \<open>pubkey\<close>, \<open>privkey\<close>,
  \<open>composite\<close> and \<open>keys\<close>; the attributes \<open>public\<close> and \<open>private\<close> exist only once
  \<open>set_public\<close> or \<open>set_private\<close> has assigned them (\<open>None\<close>: the attribute is absent).
\<close>

record rsakey =
  pubkey :: nat
  privkey :: nat
  composite :: nat
  keys :: "nat \<times> nat \<times> nat"
  public_attr :: "nat option"
  private_attr :: "nat option"

text \<open>\<open>__init__\<close> with \<open>keys\<close> given (lines 44-45).\<close>

definition RSAKey_of_keys :: "nat \<times> nat \<times> nat \<Rightarrow> rsakey" where
  "RSAKey_of_keys ks =
     (case ks of (pu, pr, c) \<Rightarrow>
        \<lparr>pubkey = pu, privkey = pr, composite = c, keys = (pu, pr, c),
         public_attr = None, private_attr = None\<rparr>)"

definition get_public :: "rsakey \<Rightarrow> error + nat \<times> nat" where
  "get_public k =
     (case public_attr k of
        None \<Rightarrow> Inl AttributeError
      | Some e \<Rightarrow> Inr (e, composite k))"

definition get_private :: "rsakey \<Rightarrow> error + nat \<times> nat" where
  "get_private k =
     (case private_attr k of
        None \<Rightarrow> Inl AttributeError
      | Some d \<Rightarrow> Inr (d, composite k))"

definition set_public :: "rsakey \<Rightarrow> nat \<times> nat \<Rightarrow> rsakey" where
  "set_public k p = (case p of (e, n) \<Rightarrow> k\<lparr>public_attr := Some e, composite := n\<rparr>)"

definition set_private :: "rsakey \<Rightarrow> nat \<times> nat \<Rightarrow> rsakey" where
  "set_private k p = (case p of (d, n) \<Rightarrow> k\<lparr>private_attr := Some d, composite := n\<rparr>)"

definition copy :: "rsakey \<Rightarrow> rsakey" where
  "copy k = RSAKey_of_keys (keys k)"

section \<open>rsa.py: the block codec\<close>

text \<open>
  \<open>math.log\<close> is a library function on floating-point numbers, and a parameter of the
  model: \<open>ml x b\<close> is the double that \<open>math.log(x, b)\<close> returns on a positive integer \<open>x\<close>,
  read as a real number. It need not be the exact logarithm, nor have the same integer
  part. \<open>int\<close> of a float truncates towards zero.
\<close>

type_synonym mathlog = "nat \<Rightarrow> nat \<Rightarrow> real"

definition py_int :: "real \<Rightarrow> int" where
  "py_int x = (if x < 0 then \<lceil>x\<rceil> else \<lfloor>x\<rfloor>)"

text \<open>\<open>int(math.log(composite, 256))\<close>; \<open>math.log\<close> raises on 0.\<close>

definition chunksize_of :: "mathlog \<Rightarrow> nat \<Rightarrow> error + int" where
  "chunksize_of ml n = (if n = 0 then Inl ValueError else Inr (py_int (ml n 256)))"

text \<open>
  The values of \<open>math.log(x, 256)\<close> in CPython on IEEE doubles, as exact fractions, at
  the moduli of the examples of this file; 0 stands for the values that no example reads.
  At \<open>72057594037927907 = 93767917 * 768467471\<close>, which is \<open>256 ^ 7 - 29\<close>, the double is
  7.0, above the exact logarithm.
\<close>

definition cpython_log :: mathlog where
  "cpython_log x b =
     (if b = 256 \<and> x = 323 then 2346203805961699 / 2251799813685248
      else if b = 256 \<and> x = 289 then 4602074032186445 / 4503599627370496
      else if b = 256 \<and> x = 72057594037927907 then 7
      else 0)"

text \<open>
  The body of the \<open>for\<close> loop of \<open>encrypt\<close> and of \<open>encrypt_generator\<close> (the same lines).
  The loops run their bodies only with a chunk size that is not negative, which the
  bodies take as a natural number.
\<close>

definition encrypt_chunk :: "rsakey \<Rightarrow> nat \<Rightarrow> bytes \<Rightarrow> nat \<Rightarrow> error + bytes" where
  "encrypt_chunk k chunksize data start =
     (let chunk = take chunksize (drop start data);
          chunk = chunk @ replicate (chunksize - length chunk) 0
      in case int16 (hexlify chunk) of
           Inl e \<Rightarrow> Inl e
         | Inr plain \<Rightarrow>
             (case pow3 plain (pubkey k) (composite k) of
                Inl e \<Rightarrow> Inl e
              | Inr coded \<Rightarrow> unhexlify (format_0x ((chunksize + 1) * 2) coded)))"

fun encrypt_loop :: "rsakey \<Rightarrow> nat \<Rightarrow> bytes \<Rightarrow> nat list \<Rightarrow> bytes list \<Rightarrow> error + bytes list" where
  "encrypt_loop k chunksize data [] result = Inr result"
| "encrypt_loop k chunksize data (start # starts) result =
     (case encrypt_chunk k chunksize data start of
        Inl e \<Rightarrow> Inl e
      | Inr bcoded \<Rightarrow> encrypt_loop k chunksize data starts (result @ [bcoded]))"

definition encrypt :: "mathlog \<Rightarrow> rsakey \<Rightarrow> pydata \<Rightarrow> error + bytes" where
  "encrypt ml k d =
     (case chunksize_of ml (composite k) of
        Inl e \<Rightarrow> Inl e
      | Inr chunksize \<Rightarrow>
          (let data = encode d in
           case py_range (length data) chunksize of
             Inl e \<Rightarrow> Inl e
           | Inr starts \<Rightarrow>
               (case encrypt_loop k (nat chunksize) data starts [] of
                  Inl e \<Rightarrow> Inl e
                | Inr result \<Rightarrow> Inr (concat result))))"

text \<open>
  A generator is modelled by what a consumer that exhausts it sees: the blocks yielded,
  in order, and the exception that ended the iteration, if any.
\<close>

fun encrypt_yield :: "rsakey \<Rightarrow> nat \<Rightarrow> bytes \<Rightarrow> nat list \<Rightarrow> bytes list \<times> error option" where
  "encrypt_yield k chunksize data [] = ([], None)"
| "encrypt_yield k chunksize data (start # starts) =
     (case encrypt_chunk k chunksize data start of
        Inl e \<Rightarrow> ([], Some e)
      | Inr bcoded \<Rightarrow>
          (case encrypt_yield k chunksize data starts of
             (ys, r) \<Rightarrow> (bcoded # ys, r)))"

definition encrypt_generator ::
    "mathlog \<Rightarrow> rsakey \<Rightarrow> pydata \<Rightarrow> bytes list \<times> error option" where
  "encrypt_generator ml k d =
     (case chunksize_of ml (composite k) of
        Inl e \<Rightarrow> ([], Some e)
      | Inr chunksize \<Rightarrow>
          (let data = encode d in
           case py_range (length data) chunksize of
             Inl e \<Rightarrow> ([], Some e)
           | Inr starts \<Rightarrow> encrypt_yield k (nat chunksize) data starts))"

text \<open>The body of the \<open>for\<close> loop of \<open>decrypt\<close> and \<open>decrypt_generator\<close>, up to \<open>chunk\<close>.\<close>

definition decrypt_chunk :: "rsakey \<Rightarrow> nat \<Rightarrow> bytes \<Rightarrow> nat \<Rightarrow> error + bytes" where
  "decrypt_chunk k chunksize data start =
     (let bcoded = take (chunksize + 1) (drop start data)
      in case int16 (hexlify bcoded) of
           Inl e \<Rightarrow> Inl e
         | Inr coded \<Rightarrow>
             (case pow3 coded (privkey k) (composite k) of
                Inl e \<Rightarrow> Inl e
              | Inr plain \<Rightarrow> unhexlify (format_0x (chunksize * 2) plain)))"

fun decrypt_loop :: "rsakey \<Rightarrow> nat \<Rightarrow> bytes \<Rightarrow> nat list \<Rightarrow> bytes list \<Rightarrow> error + bytes list" where
  "decrypt_loop k chunksize data [] result = Inr result"
| "decrypt_loop k chunksize data (start # starts) result =
     (case decrypt_chunk k chunksize data start of
        Inl e \<Rightarrow> Inl e
      | Inr chunk \<Rightarrow> decrypt_loop k chunksize data starts (result @ [chunk]))"

definition decrypt :: "mathlog \<Rightarrow> rsakey \<Rightarrow> bytes \<Rightarrow> error + bytes" where
  "decrypt ml k data =
     (case chunksize_of ml (composite k) of
        Inl e \<Rightarrow> Inl e
      | Inr chunksize \<Rightarrow>
          (case py_range (length data) (chunksize + 1) of
             Inl e \<Rightarrow> Inl e
           | Inr starts \<Rightarrow>
               (case decrypt_loop k (nat chunksize) data starts [] of
                  Inl e \<Rightarrow> Inl e
                | Inr result \<Rightarrow> Inr (rstrip0 (concat result)))))"

fun decrypt_yield :: "rsakey \<Rightarrow> nat \<Rightarrow> bytes \<Rightarrow> nat list \<Rightarrow> bytes list \<times> error option" where
  "decrypt_yield k chunksize data [] = ([], None)"
| "decrypt_yield k chunksize data (start # starts) =
     (case decrypt_chunk k chunksize data start of
        Inl e \<Rightarrow> ([], Some e)
      | Inr chunk \<Rightarrow>
          (case decrypt_yield k chunksize data starts of
             (ys, r) \<Rightarrow> (rstrip0 chunk # ys, r)))"

definition decrypt_generator ::
    "mathlog \<Rightarrow> rsakey \<Rightarrow> bytes \<Rightarrow> bytes list \<times> error option" where
  "decrypt_generator ml k data =
     (case chunksize_of ml (composite k) of
        Inl e \<Rightarrow> ([], Some e)
      | Inr chunksize \<Rightarrow>
          (case py_range (length data) (chunksize + 1) of
             Inl e \<Rightarrow> ([], Some e)
           | Inr starts \<Rightarrow> decrypt_yield k (nat chunksize) data starts))"

section \<open>rsa.py: key generation\<close>

text \<open>
  The random source is an explicit stream of raw draws, threaded through every function
  that draws. \<open>secrets.randbelow(n)\<close> takes the next raw draw into \<open>[0, n)\<close>, so that
  every value below \<open>n\<close> is a possible outcome; it raises on \<open>n = 0\<close>.
\<close>

type_synonym entropy = "nat stream"

definition randbelow :: "nat \<Rightarrow> entropy \<Rightarrow> error + nat \<times> entropy" where
  "randbelow n g = (if n = 0 then Inl ValueError else Inr (shd g mod n, stl g))"

text \<open>
  \<open>while not d & 1: s, d = s + 1, d >> 1\<close> (lines 90-91). The loop does not end on
  \<open>d = 0\<close>; not returning is the value \<open>None\<close>.
\<close>

partial_function (option) split_even :: "nat \<Rightarrow> nat \<Rightarrow> (nat \<times> nat) option" where
  "split_even s d = (if \<not> odd d then split_even (s + 1) (d div 2) else Some (s, d))"

text \<open>
  The inner \<open>for ... else\<close> (lines 99-106): \<open>True\<close> when it leaves by \<open>break\<close>, \<open>False\<close>
  when \<open>_isprime\<close> returns \<open>False\<close> from it.
\<close>

fun square_loop :: "nat \<Rightarrow> nat \<Rightarrow> nat \<Rightarrow> bool" where
  "square_loop 0 x n = False"
| "square_loop (Suc c) x n =
     (let x = x ^ 2 mod n
      in if x = 1 then False
         else if x = n - 1 then True
         else square_loop c x n)"

text \<open>\<open>a = secrets.randbelow(n1) + 2\<close> (line 95).\<close>

definition draw_base :: "nat \<Rightarrow> entropy \<Rightarrow> error + nat \<times> entropy" where
  "draw_base n1 g =
     (case randbelow n1 g of
        Inl e \<Rightarrow> Inl e
      | Inr (r, g') \<Rightarrow> Inr (r + 2, g'))"

text \<open>The outer \<open>for _ in range(k)\<close> (lines 94-107), by recursion on the rounds left.\<close>

fun rounds :: "nat \<Rightarrow> nat \<Rightarrow> nat \<Rightarrow> nat \<Rightarrow> entropy \<Rightarrow> error + bool \<times> entropy" where
  "rounds 0 n s d g = Inr (True, g)"
| "rounds (Suc k) n s d g =
     (case draw_base (n - 1) g of
        Inl e \<Rightarrow> Inl e
      | Inr (a, g') \<Rightarrow>
          (case pow3 a d n of
             Inl e \<Rightarrow> Inl e
           | Inr x \<Rightarrow>
               if x = 1 \<or> x = n - 1 then rounds k n s d g'
               else if square_loop (s - 1) x n then rounds k n s d g'
               else Inr (False, g')))"

definition isprime :: "nat \<Rightarrow> nat \<Rightarrow> entropy \<Rightarrow> (error + bool \<times> entropy) option" where
  "isprime n k g =
     (if n \<le> 3 then Some (Inr (n = 2 \<or> n = 3, g))
      else case split_even 0 (n - 1) of
             None \<Rightarrow> None
           | Some (s, d) \<Rightarrow>
               if 2 ^ s * d = n - 1 \<and> odd d then Some (rounds k n s d g)
               else Some (Inl AssertionError))"

text \<open>
  \<open>_randprime\<close>: the \<open>while\<close> loop (lines 112-113) with the current candidate as an
  argument; \<open>_isprime\<close> is called with its default of 30 rounds.
\<close>

partial_function (option) randprime_loop ::
    "nat \<Rightarrow> nat \<Rightarrow> entropy \<Rightarrow> (error + nat \<times> entropy) option" where
  "randprime_loop num prime g =
     (case isprime prime 30 g of
        None \<Rightarrow> None
      | Some (Inl e) \<Rightarrow> Some (Inl e)
      | Some (Inr (is_p, g')) \<Rightarrow>
          if \<not> is_p then
            (case randbelow num g' of
               Inl e \<Rightarrow> Some (Inl e)
             | Inr (r, g'') \<Rightarrow> randprime_loop num (r + 1) g'')
          else Some (Inr (prime, g')))"

definition randprime :: "nat \<Rightarrow> entropy \<Rightarrow> (error + nat \<times> entropy) option" where
  "randprime num g = randprime_loop num 1 g"

text \<open>\<open>_multinv\<close>: the loop (lines 120-122) returns the final \<open>lx\<close>, the only value used.\<close>

function multinv_loop :: "nat \<Rightarrow> nat \<Rightarrow> int \<Rightarrow> int \<Rightarrow> int" where
  "multinv_loop a b x lx =
     (if b \<noteq> 0 then multinv_loop b (a mod b) (lx - int (a div b) * x) x else lx)"
  by pat_completeness auto
termination
  by (relation "measure (\<lambda>(a, b, x, lx). b)") auto

definition multinv :: "nat \<Rightarrow> nat \<Rightarrow> error + nat" where
  "multinv md var =
     (let lx = multinv_loop md var 0 1
      in if var = 0 then Inl ZeroDivisionError
         else
           let result = (1 - lx * int md) div int var;
               result = (if result < 0 then result + int md else result)
           in if 0 \<le> result \<and> result < int md \<and> int var * result mod int md = 1
              then Inr (nat result)
              else Inl AssertionError)"

text \<open>The rejection loop for the private exponent (lines 137-140).\<close>

partial_function (option) draw_private ::
    "nat \<Rightarrow> entropy \<Rightarrow> (error + nat \<times> entropy) option" where
  "draw_private totient g =
     (case randbelow totient g of
        Inl e \<Rightarrow> Some (Inl e)
      | Inr (r, g') \<Rightarrow>
          if gcd (r + 1) totient = 1 then Some (Inr (r + 1, g'))
          else draw_private totient g')"

text \<open>
  Lines 141-146: the public exponent, the two assertions and the returned triple, from
  the values the sampling loops have produced.
\<close>

definition checked_keys :: "nat \<Rightarrow> nat \<Rightarrow> nat \<Rightarrow> error + nat \<times> nat \<times> nat" where
  "checked_keys composite' totient private =
     (case multinv totient private of
        Inl e \<Rightarrow> Inl e
      | Inr public \<Rightarrow>
          if totient = 0 then Inl ZeroDivisionError
          else if \<not> (public * private mod totient = gcd public totient
                    \<and> gcd public totient = gcd private totient
                    \<and> gcd private totient = 1) then Inl AssertionError
          else
            (case pow3 1234567 public composite' of
               Inl e \<Rightarrow> Inl e
             | Inr c \<Rightarrow>
                 (case pow3 c private composite' of
                    Inl e \<Rightarrow> Inl e
                  | Inr back \<Rightarrow>
                      if back \<noteq> 1234567 then Inl AssertionError
                      else Inr (public, private, composite'))))"

definition generate_keys ::
    "nat \<Rightarrow> entropy \<Rightarrow> (error + (nat \<times> nat \<times> nat) \<times> entropy) option" where
  "generate_keys key_length g =
     (case randprime key_length g of
        None \<Rightarrow> None
      | Some (Inl e) \<Rightarrow> Some (Inl e)
      | Some (Inr (prime1, g1)) \<Rightarrow>
          (case randprime key_length g1 of
             None \<Rightarrow> None
           | Some (Inl e) \<Rightarrow> Some (Inl e)
           | Some (Inr (prime2, g2)) \<Rightarrow>
               (let composite' = prime1 * prime2;
                    totient = (prime1 - 1) * (prime2 - 1)
                in case draw_private totient g2 of
                     None \<Rightarrow> None
                   | Some (Inl e) \<Rightarrow> Some (Inl e)
                   | Some (Inr (private, g3)) \<Rightarrow>
                       (case checked_keys composite' totient private of
                          Inl e \<Rightarrow> Some (Inl e)
                        | Inr ks \<Rightarrow> Some (Inr (ks, g3))))))"

text \<open>\<open>__init__\<close>: generated keys when \<open>keys\<close> is \<open>None\<close>, the given triple otherwise.\<close>

definition RSAKey_init ::
    "nat \<Rightarrow> (nat \<times> nat \<times> nat) option \<Rightarrow> entropy \<Rightarrow> (error + rsakey \<times> entropy) option" where
  "RSAKey_init key_length ks g =
     (case ks of
        None \<Rightarrow>
          (case generate_keys key_length g of
             None \<Rightarrow> None
           | Some (Inl e) \<Rightarrow> Some (Inl e)
           | Some (Inr (t, g')) \<Rightarrow> Some (Inr (RSAKey_of_keys t, g')))
      | Some t \<Rightarrow> Some (Inr (RSAKey_of_keys t, g)))"

section \<open>vigenere.py\<close>

text \<open>The one attribute \<open>__init__\<close> assigns.\<close>

record vigenerekey =
  key :: bytes

text \<open>\<open>os.urandom(key_length)\<close>: the next \<open>key_length\<close> bytes of a byte source.\<close>

definition generate_key :: "nat \<Rightarrow> byte stream \<Rightarrow> bytes" where
  "generate_key key_length src = stake key_length src"

text \<open>
  \<open>__init__\<close>: a \<open>bytes\<close> key is stored as the ASCII text of its hexadecimal form, a
  \<open>str\<close> key as its encoding.
\<close>

definition VigenereKey_init :: "nat \<Rightarrow> pydata option \<Rightarrow> byte stream \<Rightarrow> vigenerekey" where
  "VigenereKey_init key_length k src =
     (let k = (case k of None \<Rightarrow> Bytes (generate_key key_length src) | Some k \<Rightarrow> k);
          k = (case k of Bytes b \<Rightarrow> hexlify b | Str s \<Rightarrow> s)
      in \<lparr>key = k\<rparr>)"

text \<open>\<open>copy\<close>: \<open>VigenereKey(key=self.key)\<close>; \<open>self.key\<close> is a \<open>bytes\<close> object.\<close>

definition vcopy :: "vigenerekey \<Rightarrow> byte stream \<Rightarrow> vigenerekey" where
  "vcopy v src = VigenereKey_init 4096 (Some (Bytes (key v))) src"

text \<open>The two \<open>for i in range(len(data))\<close> loops; \<open>self.key[i]\<close> raises out of range.\<close>

fun add_loop :: "bytes \<Rightarrow> bytes \<Rightarrow> nat list \<Rightarrow> bytes \<Rightarrow> error + bytes" where
  "add_loop ky data [] chars = Inr chars"
| "add_loop ky data (i # is) chars =
     (if i < length ky
      then add_loop ky data is (chars @ [of_nat ((unat (data ! i) + unat (ky ! i)) mod 256)])
      else Inl IndexError)"

fun sub_loop :: "bytes \<Rightarrow> bytes \<Rightarrow> nat list \<Rightarrow> bytes \<Rightarrow> error + bytes" where
  "sub_loop ky data [] chars = Inr chars"
| "sub_loop ky data (i # is) chars =
     (if i < length ky
      then sub_loop ky data is
             (chars @ [of_int ((int (unat (data ! i)) - int (unat (ky ! i))) mod 256)])
      else Inl IndexError)"

text \<open>\<open>encrypt\<close> returns the \<open>str\<close> of hexadecimal digits.\<close>

definition vencrypt :: "vigenerekey \<Rightarrow> pydata \<Rightarrow> error + pydata" where
  "vencrypt v d =
     (if \<not> py_len d \<le> length (key v) then Inl AssertionError
      else
        let data = encode d
        in case add_loop (key v) data [0..<length data] [] of
             Inl e \<Rightarrow> Inl e
           | Inr result \<Rightarrow> Inr (Str (hexlify result)))"

text \<open>
  \<open>bytes.fromhex\<close>: pairs of hexadecimal digits, ASCII whitespace skipped between pairs;
  \<open>None\<close> when it raises.
\<close>

definition is_space :: "byte \<Rightarrow> bool" where
  "is_space c = (unat c = 32 \<or> (9 \<le> unat c \<and> unat c \<le> 13))"

fun fromhex :: "bytes \<Rightarrow> bytes option" where
  "fromhex [] = Some []"
| "fromhex [c] = (if is_space c then Some [] else None)"
| "fromhex (c # l # cs) =
     (if is_space c then fromhex (l # cs)
      else case (digit_val c, digit_val l) of
             (Some a, Some b) \<Rightarrow>
               (case fromhex cs of
                  None \<Rightarrow> None
                | Some bs \<Rightarrow> Some (of_nat (16 * a + b) # bs))
           | _ \<Rightarrow> None)"

text \<open>
  \<open>decrypt\<close>: \<open>try: data = bytes.fromhex(data.decode()) except: pass\<close> replaces the data
  when it is hexadecimal text and keeps it otherwise. (Bytes that do not decode as
  UTF-8, and decoded text with a character outside ASCII, both end in the \<open>except\<close>
  branch, so the test can be made on the bytes.)
\<close>

definition vdecrypt :: "vigenerekey \<Rightarrow> pydata \<Rightarrow> error + bytes" where
  "vdecrypt v d =
     (let data = encode d;
          data = (case fromhex data of Some b \<Rightarrow> b | None \<Rightarrow> data)
      in if \<not> length data \<le> length (key v) then Inl AssertionError
         else
           (case sub_loop (key v) data (range_from 0 (length data) 1) [] of
              Inl e \<Rightarrow> Inl e
            | Inr result \<Rightarrow> Inr result))"

section \<open>Functions of the statements and proofs\<close>

text \<open>
  The big-endian value of a byte string, the big-endian bytes and hexadecimal digits of a
  number at a fixed width, and the zero-padded chunk that \<open>encrypt\<close> cuts at a start index.
\<close>

fun be_val :: "bytes \<Rightarrow> nat" where
  "be_val [] = 0"
| "be_val (b # bs) = unat b * 256 ^ length bs + be_val bs"

fun be_bytes :: "nat \<Rightarrow> nat \<Rightarrow> bytes" where
  "be_bytes 0 v = []"
| "be_bytes (Suc w) v = be_bytes w (v div 256) @ [of_nat (v mod 256)]"

fun nibbles :: "nat \<Rightarrow> nat \<Rightarrow> nat list" where
  "nibbles 0 v = []"
| "nibbles (Suc w) v = nibbles w (v div 16) @ [v mod 16]"

definition padchunk :: "nat \<Rightarrow> bytes \<Rightarrow> nat \<Rightarrow> bytes" where
  "padchunk L data s =
     take L (drop s data) @ replicate (L - length (take L (drop s data))) 0"

text \<open>Square-and-multiply, to evaluate \<open>a ^ e mod n\<close> on numerals.\<close>

function modpow :: "nat \<Rightarrow> nat \<Rightarrow> nat \<Rightarrow> nat" where
  "modpow a e n =
     (if e = 0 then 1 mod n
      else if even e then (modpow a (e div 2) n)\<^sup>2 mod n
      else a * (modpow a (e div 2) n)\<^sup>2 mod n)"
  by pat_completeness auto
termination
  by (relation "measure (\<lambda>(a, e, n). e)") auto

text \<open>Primality, as the absence of a divisor among 2, ..., \<open>p - 1\<close>.\<close>

definition is_prime :: "nat \<Rightarrow> bool" where
  "is_prime p = (1 < p \<and> list_all (\<lambda>d. \<not> d dvd p) [2..<p])"

declare range_from.simps [simp del]
declare hex_digits.simps [simp del]
declare modpow.simps [simp del]

section \<open>Hexadecimal text and big-endian numbers\<close>

lemma unat_of_nat_byte: "n < 256 \<Longrightarrow> unat (of_nat n :: byte) = n"
  by (simp add: unat_of_nat)

lemma unat_hexchar: "d < 16 \<Longrightarrow> unat (hexchar d) = (if d < 10 then 48 + d else 87 + d)"
  unfolding hexchar_def
  using unat_of_nat_byte [of "48 + d"] unat_of_nat_byte [of "87 + d"]
  by (simp del: of_nat_add)

lemma digit_val_hexchar: "d < 16 \<Longrightarrow> digit_val (hexchar d) = Some d"
  by (simp add: digit_val_def unat_hexchar Let_def)

lemma byte_nibbles: "16 * (unat (b::byte) div 16) + unat b mod 16 = unat b"
  by simp

lemma unat_byte_div16: "unat (b::byte) div 16 < 16"
proof -
  have "unat b < 256" using unsigned_less [of b] by simp
  then show ?thesis by simp
qed

lemma int16_digits_hexlify:
  "int16_digits acc (hexlify bs) = Inr (acc * 256 ^ length bs + be_val bs)"
proof (induction bs arbitrary: acc)
  case Nil
  then show ?case by (simp add: hexlify_def)
next
  case (Cons b bs)
  have h: "hexlify (b # bs) = hexchar (unat b div 16) # hexchar (unat b mod 16) # hexlify bs"
    by (simp add: hexlify_def)
  have "16 * (16 * acc + unat b div 16) + unat b mod 16 = 256 * acc + unat b"
    using byte_nibbles [of b] by simp
  then show ?case
    using Cons.IH [of "256 * acc + unat b"]
    by (simp add: h digit_val_hexchar unat_byte_div16 algebra_simps)
qed

lemma hexlify_Nil_iff: "hexlify bs = [] \<longleftrightarrow> bs = []"
  by (cases bs) (simp_all add: hexlify_def)

lemma int16_hexlify: "bs \<noteq> [] \<Longrightarrow> int16 (hexlify bs) = Inr (be_val bs)"
  by (simp add: int16_def hexlify_Nil_iff int16_digits_hexlify)

lemma be_val_append: "be_val (xs @ ys) = be_val xs * 256 ^ length ys + be_val ys"
  by (induction xs) (simp_all add: algebra_simps power_add)

lemma be_val_replicate0: "be_val (replicate p 0) = 0"
  by (induction p) simp_all

lemma be_val_pad_left: "be_val (replicate p 0 @ bs) = be_val bs"
  by (simp add: be_val_append be_val_replicate0)

lemma be_val_less: "be_val bs < 256 ^ length bs"
proof (induction bs)
  case Nil
  then show ?case by simp
next
  case (Cons b bs)
  have "unat b < 256" using unsigned_less [of b] by simp
  then have "unat b * 256 ^ length bs + be_val bs < (unat b + 1) * 256 ^ length bs"
    using Cons.IH by (simp add: algebra_simps)
  also have "\<dots> \<le> 256 * 256 ^ length bs"
    using \<open>unat b < 256\<close> by (intro mult_le_mono1) simp
  finally show ?case by simp
qed

lemma length_be_bytes [simp]: "length (be_bytes w v) = w"
  by (induction w arbitrary: v) simp_all

lemma be_val_be_bytes: "v < 256 ^ w \<Longrightarrow> be_val (be_bytes w v) = v"
proof (induction w arbitrary: v)
  case 0
  then show ?case by simp
next
  case (Suc w)
  have "v div 256 < 256 ^ w" using Suc.prems by (simp add: less_mult_imp_div_less)
  then have "be_val (be_bytes w (v div 256)) = v div 256" by (rule Suc.IH)
  then show ?case by (simp add: be_val_append unat_of_nat)
qed

lemma be_bytes_be_val: "be_bytes (length bs) (be_val bs) = bs"
proof (induction bs rule: rev_induct)
  case Nil
  then show ?case by simp
next
  case (snoc b bs)
  have lt: "unat b < 256" using unsigned_less [of b] by simp
  have "be_val (bs @ [b]) = be_val bs * 256 + unat b" by (simp add: be_val_append)
  then show ?case using snoc.IH lt by simp
qed

lemma nibbles_zero: "nibbles w 0 = replicate w 0"
  by (induction w) (simp_all add: replicate_append_same)

lemma length_nibbles [simp]: "length (nibbles w v) = w"
  by (induction w arbitrary: v) simp_all

lemma format_0x_nibbles:
  "v < 16 ^ w \<Longrightarrow> 0 < w \<Longrightarrow> format_0x w v = map hexchar (nibbles w v)"
proof (induction w arbitrary: v)
  case 0
  then show ?case by simp
next
  case (Suc w)
  show ?case
  proof (cases "v < 16")
    case True
    then have "hex_digits v = [hexchar v]" by (simp add: hex_digits.simps)
    with True show ?thesis
      by (simp add: format_0x_def nibbles_zero)
  next
    case False
    then have w: "0 < w" using Suc.prems by (cases w) simp_all
    have lt: "v div 16 < 16 ^ w" using Suc.prems by (simp add: less_mult_imp_div_less)
    have hd: "hex_digits v = hex_digits (v div 16) @ [hexchar (v mod 16)]"
      using False by (subst hex_digits.simps) simp
    have "format_0x w (v div 16) = map hexchar (nibbles w (v div 16))"
      using lt w by (rule Suc.IH)
    then show ?thesis
      by (simp add: format_0x_def hd Let_def)
  qed
qed

lemma unhexlify_append:
  "even (length xs) \<Longrightarrow> unhexlify xs = Inr a \<Longrightarrow>
   unhexlify (xs @ ys) = (case unhexlify ys of Inl e \<Rightarrow> Inl e | Inr b \<Rightarrow> Inr (a @ b))"
proof (induction xs arbitrary: a rule: unhexlify.induct)
  case 1
  then show ?case by (simp split: sum.splits)
next
  case (2 c)
  then show ?case by simp
next
  case (3 h l cs)
  then show ?case
    by (auto split: option.splits sum.splits)
qed

lemma unhexlify_nibbles:
  "unhexlify (map hexchar (nibbles (2 * w) v)) = Inr (be_bytes w v)"
proof (induction w arbitrary: v)
  case 0
  then show ?case by simp
next
  case (Suc w)
  have n: "nibbles (2 * Suc w) v = nibbles (2 * w) (v div 256) @ [v div 16 mod 16, v mod 16]"
  proof -
    have "v div 16 div 16 = v div 256"
      by (simp add: div_mult2_eq [symmetric])
    then show ?thesis by simp
  qed
  have v: "16 * (v div 16 mod 16) + v mod 16 = v mod 256"
    using mod_mult2_eq [of v 16 16] by simp
  have last2: "unhexlify [hexchar (v div 16 mod 16), hexchar (v mod 16)] = Inr [of_nat (v mod 256)]"
    by (simp add: digit_val_hexchar v del: of_nat_add of_nat_mult)
  show ?case
    unfolding n map_append
    by (subst unhexlify_append [OF _ Suc.IH]) (simp_all add: last2 del: unhexlify.simps)
qed

lemma unhexlify_format:
  assumes "v < 256 ^ w" "0 < w"
  shows "unhexlify (format_0x (w * 2) v) = Inr (be_bytes w v)"
proof -
  have "(16::nat) ^ (w * 2) = (16 ^ 2) ^ w"
    by (simp only: power_mult [symmetric] mult.commute)
  then have "(256::nat) ^ w = 16 ^ (w * 2)"
    by simp
  then have "format_0x (w * 2) v = map hexchar (nibbles (w * 2) v)"
    using assms by (intro format_0x_nibbles) simp_all
  moreover have "w * 2 = 2 * w"
    by simp
  ultimately show ?thesis
    by (simp only: unhexlify_nibbles)
qed

lemma modpow_eq: "modpow a e n = a ^ e mod n"
proof (induction a e n rule: modpow.induct)
  case (1 a e n)
  show ?case
  proof (cases "e = 0")
    case True
    then show ?thesis by (subst modpow.simps) simp
  next
    case False
    note ne = this
    show ?thesis
    proof (cases "even e")
      case True
      then have e: "e = 2 * (e div 2)" by simp
      have "a ^ e = (a ^ (e div 2))\<^sup>2"
        by (subst e) (rule power_even_eq)
      then have "a ^ e mod n = (a ^ (e div 2) mod n)\<^sup>2 mod n"
        by (simp add: power_mod)
      then show ?thesis
        using ne True "1.IH"(1) by (subst modpow.simps) simp
    next
      case False
      then have e: "e = Suc (2 * (e div 2))" by simp
      have "a ^ e = a * (a ^ (e div 2))\<^sup>2"
        by (subst e) (rule power_odd_eq)
      then have "a ^ e mod n = a * ((a ^ (e div 2) mod n)\<^sup>2 mod n) mod n"
        by (simp add: power_mod mod_mult_right_eq)
      then show ?thesis
        using ne False "1.IH"(2) by (subst modpow.simps) (simp add: mod_mult_right_eq)
    qed
  qed
qed


lemma pow3_modpow: "pow3 a e n = (if n = 0 then Inl ValueError else Inr (modpow a e n))"
  by (simp add: pow3_def modpow_eq)

section \<open>Evaluation on concrete inputs\<close>

lemma replicate_numeral: "replicate (numeral k) x = x # replicate (pred_numeral k) x"
  by (simp add: numeral_eq_Suc)

lemmas codec_eval = encrypt_def decrypt_def encrypt_generator_def decrypt_generator_def
  set_public_def RSAKey_of_keys_def chunksize_of_def py_int_def cpython_log_def py_range_def
  range_from.simps
  encrypt_chunk_def decrypt_chunk_def hexlify_def hexchar_def int16_def digit_val_def pow3_modpow
  modpow.simps format_0x_def rstrip0_def replicate_numeral hex_digits.simps

lemmas vig_eval = VigenereKey_init_def vcopy_def vencrypt_def vdecrypt_def hexlify_def hexchar_def
  digit_val_def is_space_def range_from.simps

lemma rounds_numeral:
  "rounds (numeral j) n s d g =
     (case draw_base (n - 1) g of
        Inl e \<Rightarrow> Inl e
      | Inr (a, g') \<Rightarrow>
          (case pow3 a d n of
             Inl e \<Rightarrow> Inl e
           | Inr x \<Rightarrow>
               if x = 1 \<or> x = n - 1 then rounds (pred_numeral j) n s d g'
               else if square_loop (s - 1) x n then rounds (pred_numeral j) n s d g'
               else Inr (False, g')))"
  by (simp add: numeral_eq_Suc)

lemma square_loop_numeral:
  "square_loop (numeral j) x n =
     (let x = x ^ 2 mod n
      in if x = 1 then False
         else if x = n - 1 then True
         else square_loop (pred_numeral j) x n)"
  by (simp add: numeral_eq_Suc)

lemmas gen_eval = isprime_def split_even.simps rounds_numeral square_loop_numeral draw_base_def
  randbelow_def pow3_modpow modpow.simps

lemma is_prime_17: "is_prime 17"
  by (simp add: is_prime_def upt_rec)

lemma is_prime_19: "is_prime 19"
  by (simp add: is_prime_def upt_rec)

section \<open>The block codec\<close>

lemma py_int_int [simp]: "py_int (real_of_int i) = i"
  by (simp add: py_int_def)

lemma nat_int_Suc [simp]: "nat (int L + 1) = L + 1"
  by simp

text \<open>
  With the exact logarithm for \<open>math.log\<close>, the chunk size of a modulus of at least 256 is
  the \<open>L\<close> of the specification: positive, with \<open>256 ^ L \<le> n < 256 ^ (L + 1)\<close>.
\<close>

lemma chunksize_of_exact_log:
  assumes "256 \<le> n" "ml n 256 = log 256 (real n)"
  shows "\<exists>L. chunksize_of ml n = Inr (int L) \<and> 0 < L \<and> 256 ^ L \<le> n \<and> n < 256 ^ (L + 1)"
proof -
  let ?F = "floorlog 256 n"
  have pos: "0 < n" using assms(1) by simp
  have "(256::nat) ^ 1 \<le> n" using assms(1) by simp
  then have two: "Suc 1 \<le> ?F" by (intro floorlog_ge_SucI) simp_all
  have b: "256 ^ (?F - 1) \<le> n \<and> n < 256 ^ ?F"
    using floorlog_bounds [of n 256] pos by simp
  have "?F - 1 + 1 = ?F" using two by simp
  then have "n < 256 ^ (?F - 1 + 1)" using b by simp
  moreover have "0 < ?F - 1" using two by simp
  moreover have "chunksize_of ml n = Inr (int (?F - 1))"
  proof -
    have "1 \<le> real n" using pos by simp
    then have nonneg: "0 \<le> log 256 (real n)" by simp
    then have "py_int (log 256 (real n)) = \<lfloor>log 256 (real n)\<rfloor>"
      by (simp add: py_int_def)
    moreover have "?F - 1 = nat \<lfloor>log 256 (real n)\<rfloor>"
      using pos by (simp add: floorlog_def)
    moreover have "0 \<le> \<lfloor>log 256 (real n)\<rfloor>" using nonneg by simp
    ultimately show ?thesis
      using pos assms(2) by (simp add: chunksize_of_def)
  qed
  ultimately show ?thesis using b by blast
qed

lemma length_padchunk [simp]: "length (padchunk L data s) = L"
  by (simp add: padchunk_def)

lemma encrypt_chunk_ok:
  assumes "0 < L" "0 < composite k" "composite k < 256 ^ (L + 1)"
  shows "encrypt_chunk k L data s =
           Inr (be_bytes (L + 1) (be_val (padchunk L data s) ^ pubkey k mod composite k))"
proof -
  have ne: "padchunk L data s \<noteq> []"
    using assms(1) length_padchunk [of L data s] by (metis length_0_conv less_numeral_extra(3))
  have "be_val (padchunk L data s) ^ pubkey k mod composite k < composite k"
    using assms(2) by simp
  then have lt: "be_val (padchunk L data s) ^ pubkey k mod composite k < 256 ^ (L + 1)"
    using assms(3) by (rule less_trans)
  show ?thesis
    using assms(2) unhexlify_format [OF lt] int16_hexlify [OF ne]
    by (simp add: encrypt_chunk_def Let_def padchunk_def pow3_def)
qed

lemma decrypt_chunk_ok:
  assumes "0 < L" "0 < composite k" "s < length data"
    and "be_val (take (L + 1) (drop s data)) ^ privkey k mod composite k < 256 ^ L"
  shows "decrypt_chunk k L data s =
           Inr (be_bytes L (be_val (take (L + 1) (drop s data)) ^ privkey k mod composite k))"
proof -
  have ne: "take (L + 1) (drop s data) \<noteq> []"
    using assms(3) by simp
  show ?thesis
    using assms(2) unhexlify_format [OF assms(4) assms(1)] int16_hexlify [OF ne]
    by (simp add: decrypt_chunk_def Let_def pow3_def)
qed

lemma encrypt_loop_yield:
  "encrypt_loop k L data starts acc =
     (case encrypt_yield k L data starts of
        (ys, None) \<Rightarrow> Inr (acc @ ys)
      | (ys, Some e) \<Rightarrow> Inl e)"
  by (induction starts arbitrary: acc) (auto split: sum.splits prod.splits option.splits)

lemma encrypt_yield_map:
  "(\<And>s. s \<in> set starts \<Longrightarrow> encrypt_chunk k L data s = Inr (f s)) \<Longrightarrow>
   encrypt_yield k L data starts = (map f starts, None)"
  by (induction starts) simp_all

lemma decrypt_loop_map:
  "(\<And>s. s \<in> set starts \<Longrightarrow> decrypt_chunk k L data s = Inr (f s)) \<Longrightarrow>
   decrypt_loop k L data starts acc = Inr (acc @ map f starts)"
  by (induction starts arbitrary: acc) simp_all

lemma length_range_from:
  "0 < step \<Longrightarrow> length (range_from i stop step) = (stop - i + step - 1) div step"
proof (induction i stop step rule: range_from.induct)
  case (1 i stop step)
  show ?case
  proof (cases "i < stop")
    case True
    define a where "a = stop - (i + step) + step - 1"
    have "stop - i + step - 1 = a + step \<or> stop - i \<le> step"
      unfolding a_def by linarith
    then show ?thesis
    proof
      assume e: "stop - i + step - 1 = a + step"
      have "(a + step) div step = Suc (a div step)"
        using "1.prems" by simp
      then have "(stop - i + step - 1) div step = Suc (a div step)"
        using e by simp
      moreover have "length (range_from (i + step) stop step) = a div step"
        using True "1.prems" "1.IH" by (simp add: a_def)
      moreover have "range_from i stop step = i # range_from (i + step) stop step"
        using True "1.prems" by (subst range_from.simps) simp
      ultimately show ?thesis by simp
    next
      assume le: "stop - i \<le> step"
      then have "\<not> i + step < stop" by simp
      then have r: "range_from (i + step) stop step = []"
        by (subst range_from.simps) simp
      have "stop - i + step - 1 < 2 * step" "step \<le> stop - i + step - 1"
        using le True by simp_all
      then have "(stop - i + step - 1) div step = 1"
        by (metis One_nat_def div_nat_eqI mult.commute mult_numeral_1 nat_mult_1_right numeral_2_eq_2 mult_Suc)
      then show ?thesis
        using True "1.prems" r by (subst range_from.simps) simp
    qed
  next
    case False
    then have "stop - i + step - 1 < step" using "1.prems" by simp
    then have "(stop - i + step - 1) div step = 0" by simp
    then show ?thesis using False by (subst range_from.simps) simp
  qed
qed

lemma length_concat_uniform:
  "(\<And>b. b \<in> set bs \<Longrightarrow> length b = w) \<Longrightarrow> length (concat bs) = length bs * w"
  by (induction bs) simp_all

lemma encrypt_generator_blocks:
  assumes "chunksize_of ml (composite k) = Inr (int L)" "0 < L"
    and "0 < composite k" "composite k < 256 ^ (L + 1)"
  shows "encrypt_generator ml k d =
           (map (\<lambda>s. be_bytes (L + 1) (be_val (padchunk L (encode d) s) ^ pubkey k mod composite k))
              (range_from 0 (length (encode d)) L), None)"
proof -
  have "encrypt_yield k L (encode d) (range_from 0 (length (encode d)) L) =
          (map (\<lambda>s. be_bytes (L + 1) (be_val (padchunk L (encode d) s) ^ pubkey k mod composite k))
             (range_from 0 (length (encode d)) L), None)"
    by (rule encrypt_yield_map) (rule encrypt_chunk_ok [OF assms(2-4)])
  then show ?thesis
    using assms(1,2) by (simp add: encrypt_generator_def py_range_def Let_def)
qed

lemma encrypt_by_generator:
  "encrypt ml k d =
     (case encrypt_generator ml k d of
        (ys, None) \<Rightarrow> Inr (concat ys)
      | (ys, Some e) \<Rightarrow> Inl e)"
  by (simp add: encrypt_def encrypt_generator_def encrypt_loop_yield py_range_def Let_def
      split: sum.splits prod.splits option.splits)

text \<open>
  When the chunk size \<open>L\<close> that the code computes is positive and the modulus is below
  \<open>256 ^ (L + 1)\<close>, the ciphertext has \<open>ceil(n / L) * (L + 1)\<close> bytes, in blocks of \<open>L + 1\<close>
  bytes that hold the values \<open>pow(chunk, pubkey, composite)\<close>, all below the modulus.
\<close>

lemma encrypt_length_computed_chunksize:
  assumes "chunksize_of ml (composite k) = Inr (int L)" "0 < L"
    and "0 < composite k" "composite k < 256 ^ (L + 1)"
  shows "\<exists>bs. encrypt_generator ml k d = (bs, None) \<and> encrypt ml k d = Inr (concat bs)
           \<and> length (concat bs) = ((length (encode d) + L - 1) div L) * (L + 1)
           \<and> list_all (\<lambda>b. length b = L + 1 \<and> be_val b < composite k) bs"
proof -
  let ?f = "\<lambda>s. be_bytes (L + 1) (be_val (padchunk L (encode d) s) ^ pubkey k mod composite k)"
  let ?bs = "map ?f (range_from 0 (length (encode d)) L)"
  have g: "encrypt_generator ml k d = (?bs, None)"
    using assms by (rule encrypt_generator_blocks)
  have val: "be_val (?f s) < composite k" for s
  proof -
    have lt: "be_val (padchunk L (encode d) s) ^ pubkey k mod composite k < composite k"
      using assms(3) by simp
    then have "be_val (padchunk L (encode d) s) ^ pubkey k mod composite k < 256 ^ (L + 1)"
      using assms(4) by (rule less_trans)
    then show ?thesis using lt by (simp only: be_val_be_bytes)
  qed
  have blocks: "\<forall>b \<in> set ?bs. length b = L + 1 \<and> be_val b < composite k"
    using val by auto
  then have all_blocks: "list_all (\<lambda>b. length b = L + 1 \<and> be_val b < composite k) ?bs"
    by (simp only: list_all_iff)
  have n: "length ?bs = (length (encode d) + L - 1) div L"
    using length_range_from [OF assms(2), of 0 "length (encode d)"] by simp
  have ct: "encrypt ml k d = Inr (concat ?bs)"
    by (simp add: encrypt_by_generator g)
  have lens: "length b = L + 1" if "b \<in> set ?bs" for b
    using that by auto
  have "length (concat ?bs) = length ?bs * (L + 1)"
    using lens by (rule length_concat_uniform)
  then have len: "length (concat ?bs) = ((length (encode d) + L - 1) div L) * (L + 1)"
    by (simp only: n)
  show ?thesis
    by (intro exI [of _ ?bs] conjI) (fact g ct len all_blocks)+
qed

text \<open>
  C6: the length law, with \<open>L = floor(log256(modulus))\<close>, fails where the double that
  \<open>math.log\<close> returns is above the exact logarithm. The modulus
  \<open>72057594037927907 = 93767917 * 768467471\<close> has \<open>floor(log256) = 6\<close>, and the law gives
  \<open>ceil(7 / 6) * 7 = 14\<close> bytes for 7 bytes of plaintext; \<open>math.log\<close> returns 7.0 there, the
  code cuts one chunk of 7 bytes and returns one block of 8 bytes.
\<close>

theorem encrypt_length_law_fails_rounded_log:
  "256 \<le> composite (RSAKey_of_keys (51469709411208943, 7, 72057594037927907))
   \<and> \<lfloor>log 256 (real 72057594037927907)\<rfloor> = 6
   \<and> chunksize_of cpython_log 72057594037927907 = Inr 7
   \<and> encrypt cpython_log (RSAKey_of_keys (51469709411208943, 7, 72057594037927907))
         (Bytes [255, 255, 255, 255, 255, 255, 255]) =
       Inr [0, 155, 151, 93, 107, 201, 237, 10]
   \<and> length [0, 155, 151, 93, 107, 201, 237, 10 :: byte] = 8
   \<and> ((length [255, 255, 255, 255, 255, 255, 255 :: byte] + 6 - 1) div 6) * (6 + 1) = 14"
proof -
  have "floorlog 256 72057594037927907 = 7"
    by (simp add: compute_floorlog)
  then have "nat \<lfloor>log 256 (real 72057594037927907)\<rfloor> = 6"
    by (simp add: floorlog_def)
  then have fl: "\<lfloor>log 256 (real 72057594037927907)\<rfloor> = 6"
    by linarith
  have cs: "chunksize_of cpython_log 72057594037927907 = Inr 7"
    by (simp add: chunksize_of_def cpython_log_def py_int_def)
  have enc: "encrypt cpython_log (RSAKey_of_keys (51469709411208943, 7, 72057594037927907))
         (Bytes [255, 255, 255, 255, 255, 255, 255]) =
       Inr [0, 155, 151, 93, 107, 201, 237, 10]"
    by (simp add: codec_eval del: add_2_eq_Suc add_2_eq_Suc')
  have "((length [255, 255, 255, 255, 255, 255, 255 :: byte] + 6 - 1) div 6) * (6 + 1) = 14"
    by simp
  then show ?thesis
    using fl cs enc by (simp add: RSAKey_of_keys_def)
qed


section \<open>The key container\<close>

text \<open>
  C8: a container that \<open>__init__\<close> has just built, from a given triple or from generated
  keys, has no attribute \<open>public\<close> or \<open>private\<close>: \<open>get_public\<close> and \<open>get_private\<close> raise
  \<open>AttributeError\<close> instead of returning the pairs the claim states.
\<close>

theorem get_public_fresh_raises:
  "RSAKey_init key_length (Some ks) g = Some (Inr (RSAKey_of_keys ks, g))
   \<and> get_public (RSAKey_of_keys ks) = Inl AttributeError
   \<and> get_private (RSAKey_of_keys ks) = Inl AttributeError"
proof -
  obtain pu pr c where ks: "ks = (pu, pr, c)"
    by (cases ks)
  have "public_attr (RSAKey_of_keys ks) = None" "private_attr (RSAKey_of_keys ks) = None"
    by (simp_all add: ks RSAKey_of_keys_def)
  then have "get_public (RSAKey_of_keys ks) = Inl AttributeError"
    and "get_private (RSAKey_of_keys ks) = Inl AttributeError"
    by (simp_all add: get_public_def get_private_def)
  moreover have "RSAKey_init key_length (Some ks) g = Some (Inr (RSAKey_of_keys ks, g))"
    by (simp add: RSAKey_init_def)
  ultimately show ?thesis by simp
qed

text \<open>The same holds whichever way \<open>__init__\<close> obtained the keys.\<close>

lemma get_public_after_init:
  assumes "RSAKey_init key_length ks g = Some (Inr (k, g'))"
  shows "get_public k = Inl AttributeError \<and> get_private k = Inl AttributeError"
proof -
  obtain t where "k = RSAKey_of_keys t"
    using assms
    by (auto simp: RSAKey_init_def split: option.splits sum.splits prod.splits)
  then show ?thesis
    by (simp add: RSAKey_of_keys_def get_public_def get_private_def split: prod.split)
qed

lemma encrypt_set_public:
  "encrypt ml (set_public k (e, n)) d = encrypt ml (k\<lparr>composite := n\<rparr>) d"
proof -
  have "encrypt_chunk (set_public k (e, n)) c dt s = encrypt_chunk (k\<lparr>composite := n\<rparr>) c dt s" for c dt s
    by (simp add: encrypt_chunk_def set_public_def cong: sum.case_cong)
  then have "encrypt_yield (set_public k (e, n)) c dt ss = encrypt_yield (k\<lparr>composite := n\<rparr>) c dt ss" for c dt ss
    by (induction ss) (simp_all split: sum.splits)
  then have "encrypt_generator ml (set_public k (e, n)) d =
      encrypt_generator ml (k\<lparr>composite := n\<rparr>) d"
    by (simp add: encrypt_generator_def set_public_def Let_def split: sum.splits)
  then show ?thesis by (simp add: encrypt_by_generator)
qed

text \<open>
  C4: \<open>set_public (e, n)\<close> leaves \<open>privkey\<close> unchanged, but it stores \<open>e\<close> in the attribute
  \<open>public\<close>, which \<open>encrypt\<close> never reads: \<open>encrypt\<close> raises each chunk to the old \<open>pubkey\<close>
  modulo the new modulus. With keys (5, 173, 323) and \<open>set_public (7, 323)\<close>, the chunk 2 is
  encrypted to \<open>2 ^ 5 mod 323 = 32\<close>, not to \<open>2 ^ 7 mod 323 = 128\<close>.
\<close>

theorem set_public_not_used_by_encrypt:
  "privkey (set_public k (e, n)) = privkey k
   \<and> pubkey (set_public k (e, n)) = pubkey k
   \<and> encrypt ml (set_public k (e, n)) d = encrypt ml (k\<lparr>composite := n\<rparr>) d
   \<and> encrypt cpython_log (set_public (RSAKey_of_keys (5, 173, 323)) (7, 323)) (Bytes [2]) =
       Inr [0, 32]
   \<and> pow3 2 5 323 = Inr 32 \<and> pow3 2 7 323 = Inr 128"
proof -
  have "encrypt cpython_log (set_public (RSAKey_of_keys (5, 173, 323)) (7, 323)) (Bytes [2]) =
      Inr [0, 32]"
    by (simp add: codec_eval del: add_2_eq_Suc add_2_eq_Suc')
  moreover have "pow3 2 5 323 = Inr 32 \<and> pow3 2 7 323 = Inr 128"
    by (simp add: pow3_def)
  moreover have "privkey (set_public k (e, n)) = privkey k \<and> pubkey (set_public k (e, n)) = pubkey k"
    by (simp add: set_public_def)
  ultimately show ?thesis using encrypt_set_public by blast
qed

section \<open>vigenere.py: the copy of a key\<close>

lemma length_hexlify: "length (hexlify bs) = 2 * length bs"
  by (induction bs) (simp_all add: hexlify_def)

text \<open>
  C10: \<open>copy\<close> passes the stored key, already hexadecimal text, to the constructor, which
  encodes it in hexadecimal again: the copy's key is the hexadecimal text of the original's
  key, twice as long, and there are a key and a non-empty message that the original
  decrypts and the copy does not.
\<close>

theorem vcopy_hexes_key_again:
  "key (vcopy v src) = hexlify (key v)
   \<and> length (key (vcopy v src)) = 2 * length (key v)
   \<and> (\<exists>k m c. m \<noteq> []
         \<and> vencrypt (VigenereKey_init 4096 (Some (Bytes k)) src) (Bytes m) = Inr c
         \<and> vdecrypt (VigenereKey_init 4096 (Some (Bytes k)) src) c = Inr m
         \<and> vdecrypt (vcopy (VigenereKey_init 4096 (Some (Bytes k)) src) src) c \<noteq> Inr m)"
proof -
  have a: "key (vcopy v src) = hexlify (key v)"
    by (simp add: vcopy_def VigenereKey_init_def)
  have b: "length (key (vcopy v src)) = 2 * length (key v)"
    by (simp add: a length_hexlify)
  let ?V = "VigenereKey_init 4096 (Some (Bytes [171])) src"
  have "vencrypt ?V (Bytes [97]) = Inr (Str [99, 50])"
    by (simp add: vig_eval)
  moreover have "vdecrypt ?V (Str [99, 50]) = Inr [97]"
    by (simp add: vig_eval)
  moreover have "vdecrypt (vcopy ?V src) (Str [99, 50]) = Inr [140]"
    by (simp add: vig_eval)
  ultimately have "\<exists>k m c. m \<noteq> []
         \<and> vencrypt (VigenereKey_init 4096 (Some (Bytes k)) src) (Bytes m) = Inr c
         \<and> vdecrypt (VigenereKey_init 4096 (Some (Bytes k)) src) c = Inr m
         \<and> vdecrypt (vcopy (VigenereKey_init 4096 (Some (Bytes k)) src) src) c \<noteq> Inr m"
    by (intro exI [of _ "[171]"] exI [of _ "[97]"] exI [of _ "Str [99, 50]"]) simp
  with a b show ?thesis by blast
qed

section \<open>Key generation\<close>

text \<open>
  C3: the base is \<open>randbelow(n - 1) + 2\<close>, which ranges over \<open>[2, n]\<close>, not \<open>[2, n - 2]\<close>.
  For \<open>n = 5\<close> the draw 3 gives the base 5, and \<open>_isprime\<close> then returns \<open>False\<close> on the
  prime 5.
\<close>

lemma draw_base_can_be_n:
  assumes "3 < n"
  shows "draw_base (n - 1) ((n - 2) ## g) = Inr (n, g)"
proof -
  have "(n - 2) mod (n - 1) = n - 2" using assms by simp
  then show ?thesis using assms by (simp add: draw_base_def randbelow_def)
qed

theorem isprime_base_reaches_n:
  "draw_base (5 - 1) (3 ## sconst 0) = Inr (5, sconst 0)
   \<and> isprime 5 30 (3 ## sconst 0) = Some (Inr (False, sconst 0))"
proof -
  have "draw_base (5 - 1) (3 ## sconst 0) = Inr (5, sconst 0)"
    by (simp add: draw_base_def randbelow_def)
  moreover have "isprime 5 30 (3 ## sconst 0) = Some (Inr (False, sconst 0))"
    by (simp add: gen_eval del: add_2_eq_Suc add_2_eq_Suc')
  ultimately show ?thesis ..
qed

lemma isprime_1: "isprime (Suc 0) k g = Some (Inr (False, g))"
  by (simp add: isprime_def)

lemma randprime_loop_1_never:
  assumes "randprime_loop num prime g = Some y"
  shows "\<not> (num = 1 \<and> prime = 1)"
  using assms
proof (rule randprime_loop.raw_induct [rotated, where P = "\<lambda>num prime g y. \<not> (num = 1 \<and> prime = 1)"])
  fix f :: "nat \<Rightarrow> nat \<Rightarrow> entropy \<Rightarrow> (error + nat \<times> entropy) option"
  fix num prime :: nat and g :: entropy and y :: "error + nat \<times> entropy"
  assume IH: "\<And>num prime g y. f num prime g = Some y \<Longrightarrow> \<not> (num = 1 \<and> prime = 1)"
  assume body: "(case isprime prime 30 g of
        None \<Rightarrow> None
      | Some (Inl e) \<Rightarrow> Some (Inl e)
      | Some (Inr (is_p, g')) \<Rightarrow>
          if \<not> is_p then
            (case randbelow num g' of
               Inl e \<Rightarrow> Some (Inl e)
             | Inr (r, g'') \<Rightarrow> f num (r + 1) g'')
          else Some (Inr (prime, g'))) = Some y"
  show "\<not> (num = 1 \<and> prime = 1)"
  proof
    assume "num = 1 \<and> prime = 1"
    then have "f 1 1 (stl g) = Some y"
      using body by (simp add: isprime_1 randbelow_def)
    then show False using IH by blast
  qed
qed

lemma randprime_1: "randprime 1 g = None"
proof (cases "randprime 1 g")
  case None
  then show ?thesis .
next
  case (Some y)
  then show ?thesis
    using randprime_loop_1_never [of 1 1 g y] by (simp add: randprime_def)
qed

text \<open>
  The claim C5 fails at the bound 1 with a random source of zeros: key generation does
  not return there (\<open>None\<close>), so it raises no error either.
\<close>

theorem generate_keys_bound_1_zeros_diverges:
  "randprime 1 (sconst 0) = None \<and> generate_keys 1 (sconst 0) = None"
  using randprime_1 [of "sconst 0"] by (simp add: generate_keys_def)

text \<open>
  C5, amended: for the bound 1 key generation never returns, whatever the random draws:
  \<open>_randprime(1)\<close> draws the candidate 1 again and again, and \<open>_isprime\<close> rejects it. The
  code has no limit on the attempts and raises no error for a bound that is too small.
\<close>

theorem generate_keys_bound_1_never_returns:
  "randprime 1 g = None \<and> generate_keys 1 g = None"
  using randprime_1 [of g] by (simp add: generate_keys_def)

text \<open>
  C7: the self-check does not pass for every key of steps 1-4. With the bound 100 and the
  draws that give the primes 17 and 19 and the private exponent 173, the public exponent
  is 5 and \<open>5 * 173 mod 288 = 1\<close>, but the probe 1234567 is not below the modulus 323, so
  the probe comes back as \<open>1234567 mod 323 = 61\<close> and the second assertion fails.
\<close>

lemma checked_keys_small_modulus:
  assumes "composite' \<le> 1234567"
  shows "checked_keys composite' totient private \<noteq> Inr ks"
proof
  assume ok: "checked_keys composite' totient private = Inr ks"
  then obtain c r where
      "pow3 c private composite' = Inr r" "r = 1234567"
    by (auto simp: checked_keys_def split: sum.splits if_splits)
  then have "c ^ private mod composite' = 1234567" "composite' \<noteq> 0"
    by (auto simp: pow3_def split: if_splits)
  moreover have "c ^ private mod composite' < composite'"
    using \<open>composite' \<noteq> 0\<close> by simp
  ultimately show False using assms by simp
qed

theorem self_check_rejects_valid_key:
  "generate_keys 100
     (16 ## (replicate 30 0 @- (18 ## (replicate 30 0 @- (172 ## sconst 0))))) =
       Some (Inl AssertionError)
   \<and> is_prime 17 \<and> is_prime 19 \<and> gcd 173 ((17 - 1) * (19 - 1)) = (1::nat)
   \<and> multinv ((17 - 1) * (19 - 1)) 173 = Inr 5
   \<and> 5 * 173 mod ((17 - 1) * (19 - 1)) = (1::nat)
   \<and> checked_keys (17 * 19) ((17 - 1) * (19 - 1)) 173 = Inl AssertionError
   \<and> pow3 1234567 5 323 = Inr 74 \<and> pow3 74 173 323 = Inr 61"
proof -
  have "generate_keys 100
     (16 ## (replicate 30 0 @- (18 ## (replicate 30 0 @- (172 ## sconst 0))))) =
       Some (Inl AssertionError)"
    by (simp add: generate_keys_def randprime_def randprime_loop.simps gen_eval
        draw_private.simps checked_keys_def multinv_def gcd_nat.simps replicate_numeral
        del: add_2_eq_Suc add_2_eq_Suc')
  moreover have "gcd 173 ((17 - 1) * (19 - 1)) = (1::nat)"
    by (simp add: gcd_nat.simps)
  moreover have "multinv ((17 - 1) * (19 - 1)) 173 = Inr 5"
    by (simp add: multinv_def)
  moreover have "checked_keys (17 * 19) ((17 - 1) * (19 - 1)) 173 = Inl AssertionError"
    by (simp add: checked_keys_def multinv_def pow3_modpow modpow.simps gcd_nat.simps)
  moreover have "pow3 1234567 5 323 = Inr 74 \<and> pow3 74 173 323 = Inr 61"
    by (simp add: pow3_modpow modpow.simps)
  ultimately show ?thesis
    using is_prime_17 is_prime_19 by simp
qed

section \<open>Fermat's little theorem and the RSA identity\<close>

lemma is_prime_divisors:
  assumes "is_prime p" "d dvd p"
  shows "d = 1 \<or> d = p"
proof -
  have "0 < p" using assms(1) by (simp add: is_prime_def)
  then have "d \<le> p" "0 < d"
    using assms(2) by (auto intro: dvd_imp_le dvd_pos_nat)
  moreover have "d \<notin> set [2..<p]"
    using assms by (auto simp: is_prime_def list_all_iff)
  ultimately show ?thesis by auto
qed

lemma is_prime_coprime:
  assumes "is_prime p" "\<not> p dvd a"
  shows "coprime p a"
proof -
  have "gcd p a dvd p" by simp
  with assms(1) have "gcd p a = 1 \<or> gcd p a = p"
    by (rule is_prime_divisors)
  moreover have "gcd p a \<noteq> p"
    using assms(2) by (metis gcd_dvd2)
  ultimately show ?thesis by (simp add: coprime_iff_gcd_eq_1)
qed

lemma is_prime_dvd_mult:
  assumes "is_prime p" "p dvd a * b"
  shows "p dvd a \<or> p dvd b"
proof (cases "p dvd a")
  case True
  then show ?thesis ..
next
  case False
  then have "coprime p a" using assms(1) by (intro is_prime_coprime)
  then show ?thesis using assms(2) by (simp add: coprime_dvd_mult_right_iff)
qed

lemma is_prime_dvd_choose:
  assumes "is_prime p" "0 < k" "k < p"
  shows "p dvd (p choose k)"
proof -
  obtain j where k: "k = Suc j" using assms(2) by (cases k) simp_all
  have "Suc j * (p choose Suc j) = p * ((p - 1) choose j)"
    by (rule binomial_absorption)
  then have "p dvd k * (p choose k)" by (simp add: k)
  moreover have "\<not> p dvd k"
    using assms(2,3) by (auto dest: dvd_imp_le)
  ultimately show ?thesis using is_prime_dvd_mult [OF assms(1)] by blast
qed

lemma fermat_step:
  assumes "is_prime p"
  shows "(a + 1) ^ p mod p = (a ^ p + 1) mod p"
proof -
  have p: "0 < p" using assms by (simp add: is_prime_def)
  then obtain q where q: "p = Suc q" by (cases p) simp_all
  have "(a + 1) ^ p = (\<Sum>k\<le>p. (p choose k) * a ^ k)"
    using binomial [of a 1 p] by (simp add: atMost_atLeast0)
  also have "\<dots> = (\<Sum>k\<le>q. (p choose k) * a ^ k) + a ^ p"
    by (simp add: q)
  also have "(\<Sum>k\<le>q. (p choose k) * a ^ k) = 1 + (\<Sum>k\<in>{1..q}. (p choose k) * a ^ k)"
    by (simp add: atMost_atLeast0 sum.atLeast_Suc_atMost)
  finally have e: "(a + 1) ^ p = (\<Sum>k\<in>{1..q}. (p choose k) * a ^ k) + (a ^ p + 1)"
    by simp
  have "p dvd (\<Sum>k\<in>{1..q}. (p choose k) * a ^ k)"
  proof (rule dvd_sum)
    fix k assume "k \<in> {1..q}"
    then have "0 < k" "k < p" by (simp_all add: q)
    then have "p dvd (p choose k)" using assms by (intro is_prime_dvd_choose)
    then show "p dvd (p choose k) * a ^ k" by simp
  qed
  then obtain m where m: "(\<Sum>k\<in>{1..q}. (p choose k) * a ^ k) = p * m" ..
  show ?thesis unfolding e m by simp
qed

lemma fermat_little:
  assumes "is_prime p"
  shows "a ^ p mod p = a mod p"
proof (induction a)
  case 0
  have "0 < p" using assms by (simp add: is_prime_def)
  then show ?case by (simp add: power_0_left)
next
  case (Suc a)
  have "Suc a ^ p mod p = (a ^ p + 1) mod p"
    using fermat_step [OF assms, of a] by simp
  also have "\<dots> = (a ^ p mod p + 1) mod p"
    by (rule mod_add_left_eq [symmetric])
  also have "\<dots> = (a mod p + 1) mod p"
    by (simp only: Suc.IH)
  also have "\<dots> = Suc a mod p"
    by (simp add: mod_Suc_eq)
  finally show ?case .
qed

lemma fermat_coprime:
  assumes "is_prime p" "\<not> p dvd a"
  shows "a ^ (p - 1) mod p = 1"
proof -
  have p: "1 < p" using assms(1) by (simp add: is_prime_def)
  have a: "0 < a" using assms(2) by (cases a) simp_all
  have "a ^ p = a * a ^ (p - 1)"
    using p by (cases p) simp_all
  moreover have "a ^ p mod p = a mod p" using assms(1) by (rule fermat_little)
  ultimately have "(a * a ^ (p - 1)) mod p = (a * 1) mod p" by simp
  moreover have "a * 1 \<le> a * a ^ (p - 1)" using a by simp
  ultimately have "p dvd a * a ^ (p - 1) - a * 1"
    by (simp add: mod_eq_dvd_iff_nat)
  then have "p dvd a * (a ^ (p - 1) - 1)"
    by (simp add: right_diff_distrib')
  then have "p dvd a ^ (p - 1) - 1"
    using is_prime_dvd_mult [OF assms(1)] assms(2) by blast
  moreover have le1: "1 \<le> a ^ (p - 1)" using a by simp
  ultimately have "a ^ (p - 1) mod p = 1 mod p"
    using mod_eq_dvd_iff_nat [OF le1, of p] by blast
  then show ?thesis using p by simp
qed

lemma rsa_mod_prime:
  assumes "is_prime p"
  shows "a ^ (1 + t * (p - 1)) mod p = a mod p"
proof (cases "p dvd a")
  case True
  then have "p dvd a ^ (1 + t * (p - 1))" by simp
  then show ?thesis using True by (simp add: mod_eq_0_iff_dvd)
next
  case False
  have "a ^ (1 + t * (p - 1)) = a * a ^ ((p - 1) * t)"
    by (simp add: mult.commute)
  also have "\<dots> = a * (a ^ (p - 1)) ^ t"
    by (simp only: power_mult)
  finally have "a ^ (1 + t * (p - 1)) = a * (a ^ (p - 1)) ^ t" .
  then have "a ^ (1 + t * (p - 1)) mod p = a * (a ^ (p - 1)) ^ t mod p"
    by (rule arg_cong)
  also have "\<dots> = a * ((a ^ (p - 1) mod p) ^ t mod p) mod p"
    by (simp only: power_mod mod_mult_right_eq)
  also have "\<dots> = a mod p"
    using fermat_coprime [OF assms False] by simp
  finally show ?thesis .
qed

lemma rsa_roundtrip:
  assumes p: "is_prime p" and q: "is_prime q" and ne: "p \<noteq> q"
    and ed: "e * d mod ((p - 1) * (q - 1)) = 1"
    and v: "v < p * q"
  shows "(v ^ e mod (p * q)) ^ d mod (p * q) = v"
proof -
  define t where "t = e * d div ((p - 1) * (q - 1))"
  have E: "e * d = 1 + t * ((p - 1) * (q - 1))"
    using ed mod_div_mult_eq [of "e * d" "(p - 1) * (q - 1)"] by (simp add: t_def)
  have ep: "e * d = 1 + (t * (q - 1)) * (p - 1)" using E by (simp add: mult.commute mult.left_commute)
  have eq: "e * d = 1 + (t * (p - 1)) * (q - 1)" using E by (simp add: mult.commute mult.left_commute)
  have mp: "v ^ (e * d) mod p = v mod p" unfolding ep using p by (rule rsa_mod_prime)
  have mq: "v ^ (e * d) mod q = v mod q" unfolding eq using q by (rule rsa_mod_prime)
  have le: "v \<le> v ^ (e * d)"
  proof (cases "v = 0")
    case True
    then show ?thesis by simp
  next
    case False
    have "0 < e * d" using E by simp
    then show ?thesis using False by (simp add: self_le_power)
  qed
  have dp: "p dvd v ^ (e * d) - v" using mp le by (simp add: mod_eq_dvd_iff_nat)
  have dq: "q dvd v ^ (e * d) - v" using mq le by (simp add: mod_eq_dvd_iff_nat)
  have "\<not> p dvd q"
    using is_prime_divisors [OF q, of p] p ne by (auto simp: is_prime_def)
  then have "coprime p q" using p by (intro is_prime_coprime)
  then have "p * q dvd v ^ (e * d) - v" using dp dq by (rule divides_mult [rotated 2])
  then have "v ^ (e * d) mod (p * q) = v mod (p * q)"
    using le by (simp add: mod_eq_dvd_iff_nat)
  then have "v ^ (e * d) mod (p * q) = v" using v by simp
  moreover have "(v ^ e mod (p * q)) ^ d mod (p * q) = v ^ (e * d) mod (p * q)"
    by (simp add: power_mod power_mult)
  ultimately show ?thesis by simp
qed

section \<open>Decrypting what \<open>encrypt\<close> returns\<close>

declare be_bytes.simps(2) [simp del]

lemma range_from_elems:
  "s \<in> set (range_from i stop step) \<Longrightarrow> s < stop \<and> i \<le> s \<and> step dvd (s - i)"
proof (induction i stop step rule: range_from.induct)
  case (1 i stop step)
  show ?case
  proof (cases "i < stop \<and> 0 < step")
    case True
    then have r: "range_from i stop step = i # range_from (i + step) stop step"
      by (subst range_from.simps) simp
    show ?thesis
    proof (cases "s = i")
      case True
      with \<open>i < stop \<and> 0 < step\<close> show ?thesis by simp
    next
      case False
      then have "s \<in> set (range_from (i + step) stop step)"
        using "1.prems" r by simp
      then have h: "s < stop \<and> i + step \<le> s \<and> step dvd (s - (i + step))"
        using True "1.IH" by blast
      then have "s - i = (s - (i + step)) + step" by simp
      then have "step dvd (s - i)" using h by (metis dvd_add_triv_right_iff)
      then show ?thesis using h by simp
    qed
  next
    case False
    then have "range_from i stop step = []"
      by (subst range_from.simps) simp
    then show ?thesis using "1.prems" by simp
  qed
qed

lemma blocks_of_concat:
  assumes "0 < w" "\<And>b. b \<in> set bs \<Longrightarrow> length b = w"
  shows "map (\<lambda>s. take w (drop s (pre @ concat bs)))
           (range_from (length pre) (length pre + length (concat bs)) w) = bs"
  using assms(2)
proof (induction bs arbitrary: pre)
  case Nil
  have "range_from (length pre) (length pre) w = []"
    by (subst range_from.simps) simp
  then show ?case by simp
next
  case (Cons b bs)
  have lb: "length b = w" using Cons.prems by simp
  have r: "range_from (length pre) (length pre + length (concat (b # bs))) w =
        length pre # range_from (length (pre @ b)) (length (pre @ b) + length (concat bs)) w"
    using assms(1) lb by (subst range_from.simps) (simp add: add.assoc)
  have "map (\<lambda>s. take w (drop s ((pre @ b) @ concat bs)))
           (range_from (length (pre @ b)) (length (pre @ b) + length (concat bs)) w) = bs"
    using Cons.prems by (intro Cons.IH) simp
  then show ?case
    unfolding r using lb by simp
qed

lemma concat_padchunks:
  "0 < L \<Longrightarrow> i \<le> length data \<Longrightarrow>
   \<exists>p. concat (map (padchunk L data) (range_from i (length data) L)) = drop i data @ replicate p 0"
proof (induction i "length data" L rule: range_from.induct)
  case (1 i L)
  show ?case
  proof (cases "i < length data \<and> 0 < L")
    case True
    then have r: "range_from i (length data) L = i # range_from (i + L) (length data) L"
      by (subst range_from.simps) simp
    show ?thesis
    proof (cases "i + L \<le> length data")
      case le: True
      then obtain p where p: "concat (map (padchunk L data) (range_from (i + L) (length data) L)) =
          drop (i + L) data @ replicate p 0"
        using "1.hyps" True by blast
      have "padchunk L data i = take L (drop i data)"
        using le by (simp add: padchunk_def)
      moreover have "take L (drop i data) @ drop (i + L) data = drop i data"
        by (metis add.commute append_take_drop_id drop_drop)
      ultimately show ?thesis
        unfolding r using p by (intro exI [of _ p]) simp
    next
      case gt: False
      then have "range_from (i + L) (length data) L = []"
        by (subst range_from.simps) simp
      moreover have "padchunk L data i = drop i data @ replicate (L - (length data - i)) 0"
        using gt by (simp add: padchunk_def)
      ultimately show ?thesis
        unfolding r by (intro exI [of _ "L - (length data - i)"]) simp
    qed
  next
    case False
    then have "range_from i (length data) L = []"
      by (subst range_from.simps) simp
    moreover have "drop i data = []" using False "1.prems" by auto
    ultimately show ?thesis
      by (intro exI [of _ 0]) simp
  qed
qed

lemma rstrip0_padded:
  assumes "m \<noteq> []" "last m \<noteq> 0"
  shows "rstrip0 (m @ replicate p 0) = m"
proof -
  obtain x xs where x: "rev m = x # xs" using assms(1) by (cases "rev m") simp_all
  then have "x = last m" by (metis last_rev list.sel(1) rev_rev_ident hd_rev)
  then have nz: "x \<noteq> 0" using assms(2) by simp
  have "dropWhile (\<lambda>b. b = 0) (replicate p 0 @ rev m) = dropWhile (\<lambda>b. b = 0) (rev m)"
    by (rule dropWhile_append2) simp
  also have "\<dots> = rev m" using nz by (simp add: x)
  finally show ?thesis by (simp add: rstrip0_def)
qed

lemma decrypt_yield_cong:
  "(\<And>s. s \<in> set starts \<Longrightarrow> decrypt_chunk k L d1 s = decrypt_chunk k L d2 s) \<Longrightarrow>
   decrypt_yield k L d1 starts = decrypt_yield k L d2 starts"
  by (induction starts) (simp_all split: sum.splits)

lemma decrypt_loop_cong:
  assumes "\<And>s. s \<in> set starts \<Longrightarrow> decrypt_chunk k L d1 s = decrypt_chunk k L d2 s"
  shows "decrypt_loop k L d1 starts acc = decrypt_loop k L d2 starts acc"
  using assms by (induction starts arbitrary: acc) (simp_all split: sum.splits)

text \<open>
  C1, amended: for a key whose modulus \<open>n\<close> is the product of two distinct primes \<open>p\<close> and
  \<open>q\<close>, with \<open>pubkey * privkey mod ((p - 1) * (q - 1)) = 1\<close> and \<open>n\<close> at least 256, whose
  chunk size \<open>L\<close>, as the code computes it by \<open>int(math.log(n, 256))\<close>, is the floor of the
  logarithm (\<open>256 ^ L \<le> n < 256 ^ (L + 1)\<close>), and for every non-empty plaintext that does
  not end in a null byte, \<open>encrypt\<close> returns a ciphertext and \<open>decrypt\<close> of it returns the
  plaintext. Nothing is stated for a modulus where the double that \<open>math.log\<close> returns has
  another integer part than the exact logarithm.
\<close>

theorem rsa_codec_roundtrip:
  assumes p: "is_prime p" and q: "is_prime q" and ne: "p \<noteq> q"
    and n: "composite k = p * q"
    and ed: "pubkey k * privkey k mod ((p - 1) * (q - 1)) = 1"
    and big: "256 \<le> composite k"
    and cs: "chunksize_of ml (composite k) = Inr (int L)"
    and lo: "256 ^ L \<le> composite k" and hi: "composite k < 256 ^ (L + 1)"
    and m: "encode d \<noteq> []" "last (encode d) \<noteq> 0"
  shows "\<exists>ct. encrypt ml k d = Inr ct \<and> decrypt ml k ct = Inr (encode d)"
proof -
  let ?n = "composite k" and ?data = "encode d"
  have Lpos: "0 < L"
  proof (rule ccontr)
    assume "\<not> 0 < L"
    then have "?n < 256" using hi by simp
    then show False using big by simp
  qed
  note L = cs Lpos lo hi
  have pos0: "0 < ?n" using big by simp
  have g: "encrypt_generator ml k d =
      (map (\<lambda>s. be_bytes (L + 1) (be_val (padchunk L ?data s) ^ pubkey k mod ?n))
         (range_from 0 (length ?data) L), None)"
    using cs Lpos pos0 hi by (rule encrypt_generator_blocks)
  define B where "B s = be_bytes (L + 1) (be_val (padchunk L ?data s) ^ pubkey k mod ?n)" for s
  define starts where "starts = range_from 0 (length ?data) L"
  define bs where "bs = map B starts"
  define ct where "ct = concat bs"
  define h where "h b = be_bytes L (be_val b ^ privkey k mod ?n)" for b :: bytes
  have pos: "0 < ?n" using big by simp
  have enc: "encrypt ml k d = Inr ct"
    by (simp add: encrypt_by_generator g ct_def bs_def starts_def B_def [abs_def])
  have len: "\<And>b. b \<in> set bs \<Longrightarrow> length b = L + 1"
    by (auto simp: bs_def B_def)
  have hB: "h (B s) = padchunk L ?data s" for s
  proof -
    let ?v = "be_val (padchunk L ?data s)"
    have "?v < 256 ^ length (padchunk L ?data s)" by (rule be_val_less)
    then have v: "?v < 256 ^ L" by simp
    then have vn: "?v < p * q" using L(3) n by simp
    have "?v ^ pubkey k mod ?n < ?n" using pos by simp
    then have "?v ^ pubkey k mod ?n < 256 ^ (L + 1)" using L(4) by simp
    then have "be_val (B s) = ?v ^ pubkey k mod ?n"
      unfolding B_def by (rule be_val_be_bytes)
    then have "be_val (B s) ^ privkey k mod ?n = ?v"
      using rsa_roundtrip [OF p q ne ed vn] by (simp add: n)
    then have "h (B s) = be_bytes (length (padchunk L ?data s)) ?v"
      by (simp add: h_def)
    then show ?thesis by (simp only: be_bytes_be_val)
  qed
  let ?starts' = "range_from 0 (length ct) (L + 1)"
  have blocks: "map (\<lambda>s. take (L + 1) (drop s ct)) ?starts' = bs"
    using blocks_of_concat [of "L + 1" bs "[]"] len by (simp add: ct_def)
  have chunk: "decrypt_chunk k L ct s = Inr (h (take (L + 1) (drop s ct)))" if "s \<in> set ?starts'" for s
  proof -
    have s: "s < length ct" using range_from_elems [OF that] by simp
    have "take (L + 1) (drop s ct) \<in> set (map (\<lambda>s. take (L + 1) (drop s ct)) ?starts')"
      using that by simp
    then have "take (L + 1) (drop s ct) \<in> set bs" by (simp only: blocks)
    then obtain s0 where s0: "take (L + 1) (drop s ct) = B s0" by (auto simp: bs_def)
    have "be_val (B s0) ^ privkey k mod ?n < 256 ^ L"
    proof -
      have "h (B s0) = padchunk L ?data s0" by (rule hB)
      have "be_val (padchunk L ?data s0) < 256 ^ length (padchunk L ?data s0)" by (rule be_val_less)
      then have v: "be_val (padchunk L ?data s0) < 256 ^ L" by simp
      then have vn: "be_val (padchunk L ?data s0) < p * q" using L(3) n by simp
      have "be_val (padchunk L ?data s0) ^ pubkey k mod ?n < ?n" using pos by simp
      then have "be_val (padchunk L ?data s0) ^ pubkey k mod ?n < 256 ^ (L + 1)" using L(4) by simp
      then have "be_val (B s0) = be_val (padchunk L ?data s0) ^ pubkey k mod ?n"
        unfolding B_def by (rule be_val_be_bytes)
      then have "be_val (B s0) ^ privkey k mod ?n = be_val (padchunk L ?data s0)"
        using rsa_roundtrip [OF p q ne ed vn] by (simp add: n)
      then show ?thesis using v by simp
    qed
    then have "be_val (take (L + 1) (drop s ct)) ^ privkey k mod ?n < 256 ^ L"
      by (simp only: s0)
    then show ?thesis
      unfolding h_def by (rule decrypt_chunk_ok [OF L(2) pos s])
  qed
  have "decrypt_loop k L ct ?starts' [] = Inr ([] @ map (\<lambda>s. h (take (L + 1) (drop s ct))) ?starts')"
    by (rule decrypt_loop_map) (rule chunk)
  also have "map (\<lambda>s. h (take (L + 1) (drop s ct))) ?starts' = map h bs"
    using arg_cong [OF blocks, of "map h"] by (simp add: comp_def)
  also have "map h bs = map (padchunk L ?data) starts"
    by (simp add: bs_def hB)
  finally have loop: "decrypt_loop k L ct ?starts' [] = Inr (map (padchunk L ?data) starts)"
    by simp
  obtain pd where pd: "concat (map (padchunk L ?data) starts) = ?data @ replicate pd 0"
    using concat_padchunks [OF L(2), of 0 ?data] by (auto simp: starts_def)
  have "decrypt ml k ct = Inr (rstrip0 (?data @ replicate pd 0))"
    using L(1) loop pd by (simp add: decrypt_def py_range_def)
  then have "decrypt ml k ct = Inr ?data"
    using rstrip0_padded [OF m] by simp
  with enc show ?thesis by blast
qed

theorem rsa_codec_roundtrip_witness:
  "is_prime 17 \<and> is_prime 19 \<and> (17::nat) \<noteq> 19
   \<and> composite (RSAKey_of_keys (5, 173, 323)) = 17 * 19
   \<and> pubkey (RSAKey_of_keys (5, 173, 323)) * privkey (RSAKey_of_keys (5, 173, 323))
        mod ((17 - 1) * (19 - 1)) = 1
   \<and> 256 \<le> composite (RSAKey_of_keys (5, 173, 323))
   \<and> chunksize_of cpython_log (composite (RSAKey_of_keys (5, 173, 323))) = Inr (int 1)
   \<and> 256 ^ 1 \<le> composite (RSAKey_of_keys (5, 173, 323))
   \<and> composite (RSAKey_of_keys (5, 173, 323)) < 256 ^ (1 + 1)
   \<and> encode (Bytes [104, 105, 33]) \<noteq> [] \<and> last (encode (Bytes [104, 105, 33])) \<noteq> 0
   \<and> (\<exists>ct. encrypt cpython_log (RSAKey_of_keys (5, 173, 323)) (Bytes [104, 105, 33]) = Inr ct
          \<and> decrypt cpython_log (RSAKey_of_keys (5, 173, 323)) ct =
              Inr (encode (Bytes [104, 105, 33])))"
proof -
  have p: "is_prime 17" by (rule is_prime_17)
  have q: "is_prime 19" by (rule is_prime_19)
  have ne: "(17::nat) \<noteq> 19" by simp
  have n: "composite (RSAKey_of_keys (5, 173, 323)) = 17 * 19"
    by (simp add: RSAKey_of_keys_def)
  have ed: "pubkey (RSAKey_of_keys (5, 173, 323)) * privkey (RSAKey_of_keys (5, 173, 323))
        mod ((17 - 1) * (19 - 1)) = 1"
    by (simp add: RSAKey_of_keys_def)
  have big: "256 \<le> composite (RSAKey_of_keys (5, 173, 323))"
    by (simp add: RSAKey_of_keys_def)
  have cs: "chunksize_of cpython_log (composite (RSAKey_of_keys (5, 173, 323))) = Inr (int 1)"
    by (simp add: RSAKey_of_keys_def chunksize_of_def cpython_log_def py_int_def)
  have lo: "256 ^ 1 \<le> composite (RSAKey_of_keys (5, 173, 323))"
    by (simp add: RSAKey_of_keys_def)
  have hi: "composite (RSAKey_of_keys (5, 173, 323)) < 256 ^ (1 + 1)"
    by (simp add: RSAKey_of_keys_def)
  have m: "encode (Bytes [104, 105, 33]) \<noteq> []" "last (encode (Bytes [104, 105, 33])) \<noteq> 0"
    by simp_all
  show ?thesis
    using p q ne n ed big cs lo hi m rsa_codec_roundtrip [OF p q ne n ed big cs lo hi m]
    by blast
qed

text \<open>
  The claim C1 as stated also covers a modulus that is the square of a prime, and fails
  there: with the modulus \<open>17 * 17\<close> and the exponents 3 and 171
  (\<open>3 * 171 mod (16 * 16) = 1\<close>), the plaintext byte 17 is encrypted to two null bytes,
  which decrypt to the empty string. The chunk size is the floor of the logarithm there.
\<close>

theorem rsa_roundtrip_equal_primes_fails:
  "is_prime 17 \<and> composite (RSAKey_of_keys (3, 171, 289)) = 17 * 17
   \<and> pubkey (RSAKey_of_keys (3, 171, 289)) * privkey (RSAKey_of_keys (3, 171, 289))
        mod ((17 - 1) * (17 - 1)) = 1
   \<and> 256 \<le> composite (RSAKey_of_keys (3, 171, 289))
   \<and> chunksize_of cpython_log (composite (RSAKey_of_keys (3, 171, 289))) = Inr 1
   \<and> encode (Bytes [17]) \<noteq> [] \<and> last (encode (Bytes [17])) \<noteq> 0
   \<and> encrypt cpython_log (RSAKey_of_keys (3, 171, 289)) (Bytes [17]) = Inr [0, 0]
   \<and> decrypt cpython_log (RSAKey_of_keys (3, 171, 289)) [0, 0] = Inr []"
proof -
  have "is_prime 17" by (rule is_prime_17)
  moreover have "chunksize_of cpython_log (composite (RSAKey_of_keys (3, 171, 289))) = Inr 1"
    by (simp add: RSAKey_of_keys_def chunksize_of_def cpython_log_def py_int_def)
  moreover have "encrypt cpython_log (RSAKey_of_keys (3, 171, 289)) (Bytes [17]) = Inr [0, 0]"
    by (simp add: codec_eval del: add_2_eq_Suc add_2_eq_Suc')
  moreover have "decrypt cpython_log (RSAKey_of_keys (3, 171, 289)) [0, 0] = Inr []"
    by (simp add: codec_eval del: add_2_eq_Suc add_2_eq_Suc')
  ultimately show ?thesis by (simp add: RSAKey_of_keys_def)
qed

text \<open>
  Where the double that \<open>math.log\<close> returns is above the exact logarithm, the round trip
  fails also for distinct primes. The keys (51469709411208943, 7, 72057594037927907) have
  the modulus \<open>93767917 * 768467471\<close>, just below \<open>256 ^ 7\<close>, and exponents that are inverse
  modulo \<open>93767916 * 768467470\<close>. The code cuts chunks of 7 bytes, the chunk of seven bytes
  255 is not below the modulus, and it comes back as its remainder 28.
\<close>

lemma roundtrip_fails_rounded_log:
  "composite (RSAKey_of_keys (51469709411208943, 7, 72057594037927907)) = 93767917 * 768467471
   \<and> 51469709411208943 * 7 mod ((93767917 - 1) * (768467471 - 1)) = (1::nat)
   \<and> chunksize_of cpython_log 72057594037927907 = Inr 7
   \<and> \<not> (256::nat) ^ 7 \<le> 72057594037927907
   \<and> encrypt cpython_log (RSAKey_of_keys (51469709411208943, 7, 72057594037927907))
         (Bytes [255, 255, 255, 255, 255, 255, 255]) =
       Inr [0, 155, 151, 93, 107, 201, 237, 10]
   \<and> decrypt cpython_log (RSAKey_of_keys (51469709411208943, 7, 72057594037927907))
         [0, 155, 151, 93, 107, 201, 237, 10] =
       Inr [0, 0, 0, 0, 0, 0, 28]"
proof -
  have "chunksize_of cpython_log 72057594037927907 = Inr 7"
    by (simp add: chunksize_of_def cpython_log_def py_int_def)
  moreover have "encrypt cpython_log (RSAKey_of_keys (51469709411208943, 7, 72057594037927907))
         (Bytes [255, 255, 255, 255, 255, 255, 255]) =
       Inr [0, 155, 151, 93, 107, 201, 237, 10]"
    by (simp add: codec_eval del: add_2_eq_Suc add_2_eq_Suc')
  moreover have "decrypt cpython_log (RSAKey_of_keys (51469709411208943, 7, 72057594037927907))
         [0, 155, 151, 93, 107, 201, 237, 10] =
       Inr [0, 0, 0, 0, 0, 0, 28]"
    by (simp add: codec_eval del: add_2_eq_Suc add_2_eq_Suc')
  ultimately show ?thesis by (simp add: RSAKey_of_keys_def)
qed

section \<open>A ciphertext whose length is not a multiple of the block width\<close>

lemma range_from_same:
  "w dvd i \<Longrightarrow> (\<And>j. w dvd j \<Longrightarrow> (j < s1) = (j < s2)) \<Longrightarrow>
   range_from i s1 w = range_from i s2 w"
proof (induction i s1 w rule: range_from.induct)
  case (1 i s1 w)
  show ?case
  proof (cases "i < s1 \<and> 0 < w")
    case True
    then have "i < s2" using "1.prems" by blast
    moreover have "range_from (i + w) s1 w = range_from (i + w) s2 w"
      using True "1.prems" by (intro "1.IH") simp_all
    ultimately show ?thesis
      using True by (subst range_from.simps, subst (2) range_from.simps) simp
  next
    case False
    then have "\<not> (i < s2 \<and> 0 < w)" using "1.prems" by blast
    with False show ?thesis
      by (subst range_from.simps, subst (2) range_from.simps) simp
  qed
qed

lemma decrypt_chunk_padded:
  assumes w: "(L + 1) dvd length pre" and t: "tail \<noteq> []" "length tail < L + 1"
    and s: "(L + 1) dvd s" "s < length (pre @ tail)"
  shows "decrypt_chunk k L (pre @ tail) s =
         decrypt_chunk k L (pre @ replicate (L + 1 - length tail) 0 @ tail) s"
proof (cases "s < length pre")
  case True
  obtain a where a: "length pre = (L + 1) * a" using w ..
  obtain b where b: "s = (L + 1) * b" using s(1) ..
  have "(L + 1) * b < (L + 1) * a" using True unfolding a b .
  then have "b < a" by (simp only: mult_less_cancel1)
  then have "Suc b \<le> a" by simp
  then have "(L + 1) * Suc b \<le> (L + 1) * a" by (rule mult_le_mono2)
  then have le: "s + (L + 1) \<le> length pre" using a b by simp
  then have "take (L + 1) (drop s (pre @ x)) = take (L + 1) (drop s pre)" for x :: bytes
    by simp
  then show ?thesis by (simp only: decrypt_chunk_def)
next
  case False
  obtain a where a: "length pre = (L + 1) * a" using w ..
  obtain b where b: "s = (L + 1) * b" using s(1) ..
  have "(L + 1) * a \<le> (L + 1) * b" using False unfolding a b by simp
  then have "a \<le> b" by (simp only: mult_le_cancel1)
  moreover have "(L + 1) * b < (L + 1) * a + (L + 1)" using s(2) t(2) a b by simp
  then have "(L + 1) * b < (L + 1) * Suc a" by simp
  then have "b < Suc a" by (simp only: mult_less_cancel1)
  ultimately have "b = a" by simp
  then have e: "s = length pre" using a b by simp
  have one: "take (L + 1) (drop s (pre @ tail)) = tail"
    using t(2) by (simp add: e)
  have two: "take (L + 1) (drop s (pre @ replicate (L + 1 - length tail) 0 @ tail)) =
        replicate (L + 1 - length tail) 0 @ tail"
    using t(2) by (simp add: e)
  have "int16 (hexlify (replicate (L + 1 - length tail) 0 @ tail)) = int16 (hexlify tail)"
    using t(1) by (simp add: int16_hexlify be_val_pad_left)
  then show ?thesis
    by (simp only: decrypt_chunk_def one two Let_def)
qed

text \<open>
  C2, amended: \<open>decrypt\<close> and \<open>decrypt_generator\<close> make no check of the length. With \<open>L\<close>
  the chunk size that the code computes by \<open>int(math.log(composite, 256))\<close>, when a
  ciphertext ends in a block shorter than \<open>L + 1\<close> bytes, the blocks before it are decoded
  as usual and the short block is read as a big-endian number like a full one: the
  result, value or exception, is the one for the ciphertext whose last block is padded on
  the left with null bytes to \<open>L + 1\<close> bytes.
\<close>

theorem decrypt_short_final_block:
  assumes "chunksize_of ml (composite k) = Inr (int L)" "(L + 1) dvd length pre"
    and "tail \<noteq> []" "length tail < L + 1"
  shows "decrypt ml k (pre @ tail) =
           decrypt ml k (pre @ replicate (L + 1 - length tail) 0 @ tail)
       \<and> decrypt_generator ml k (pre @ tail) =
           decrypt_generator ml k (pre @ replicate (L + 1 - length tail) 0 @ tail)"
proof -
  let ?d1 = "pre @ tail" and ?d2 = "pre @ replicate (L + 1 - length tail) 0 @ tail"
  obtain a where a: "length pre = (L + 1) * a" using assms(2) ..
  have same: "(j < length ?d1) = (j < length ?d2)" if dj: "(L + 1) dvd j" for j
  proof -
    obtain b where b: "j = (L + 1) * b" using dj ..
    have l2: "length ?d2 = (L + 1) * Suc a" using assms(4) a by simp
    have "j < length ?d1 \<longleftrightarrow> b \<le> a"
    proof
      assume "j < length ?d1"
      then have "(L + 1) * b < (L + 1) * Suc a" using assms(4) a b by simp
      then have "b < Suc a" by (simp only: mult_less_cancel1)
      then show "b \<le> a" by simp
    next
      assume "b \<le> a"
      then have "(L + 1) * b \<le> (L + 1) * a" by (rule mult_le_mono2)
      moreover have "0 < length tail" using assms(3) by simp
      ultimately have "(L + 1) * b < (L + 1) * a + length tail" by linarith
      then show "j < length ?d1" unfolding b using a by simp
    qed
    moreover have "j < length ?d2 \<longleftrightarrow> b \<le> a"
      unfolding l2 b by (simp only: mult_less_cancel1) auto
    ultimately show ?thesis by simp
  qed
  have r: "range_from 0 (length ?d1) (L + 1) = range_from 0 (length ?d2) (L + 1)"
    by (rule range_from_same) (simp, rule same)
  have c: "decrypt_chunk k L ?d1 s = decrypt_chunk k L ?d2 s"
    if mem: "s \<in> set (range_from 0 (length ?d1) (L + 1))" for s
  proof -
    have "s < length ?d1" "(L + 1) dvd s"
      using range_from_elems [OF mem] by simp_all
    then show ?thesis
      using decrypt_chunk_padded [OF assms(2-4)] by blast
  qed
  have y: "decrypt_yield k L ?d1 (range_from 0 (length ?d1) (L + 1)) =
           decrypt_yield k L ?d2 (range_from 0 (length ?d1) (L + 1))"
    by (rule decrypt_yield_cong) (rule c)
  have l: "decrypt_loop k L ?d1 (range_from 0 (length ?d1) (L + 1)) [] =
           decrypt_loop k L ?d2 (range_from 0 (length ?d1) (L + 1)) []"
    by (rule decrypt_loop_cong) (rule c)
  have "decrypt ml k ?d1 = decrypt ml k ?d2"
    unfolding decrypt_def assms(1) py_range_def using l r by simp
  moreover have "decrypt_generator ml k ?d1 = decrypt_generator ml k ?d2"
    unfolding decrypt_generator_def assms(1) py_range_def using y r by simp
  ultimately show ?thesis ..
qed

theorem decrypt_short_final_block_witness:
  "chunksize_of cpython_log (composite (RSAKey_of_keys (5, 173, 323))) = Inr (int 1)
   \<and> (1 + 1) dvd length [0, 168 :: byte] \<and> [3 :: byte] \<noteq> [] \<and> length [3 :: byte] < 1 + 1
   \<and> decrypt cpython_log (RSAKey_of_keys (5, 173, 323)) ([0, 168] @ [3]) =
       decrypt cpython_log (RSAKey_of_keys (5, 173, 323)) ([0, 168] @ replicate (1 + 1 - length [3 :: byte]) 0 @ [3])
   \<and> decrypt_generator cpython_log (RSAKey_of_keys (5, 173, 323)) ([0, 168] @ [3]) =
       decrypt_generator cpython_log (RSAKey_of_keys (5, 173, 323))
         ([0, 168] @ replicate (1 + 1 - length [3 :: byte]) 0 @ [3])"
proof -
  have h1: "chunksize_of cpython_log (composite (RSAKey_of_keys (5, 173, 323))) = Inr (int 1)"
    by (simp add: RSAKey_of_keys_def chunksize_of_def cpython_log_def py_int_def)
  have h2: "(1 + 1) dvd length [0, 168 :: byte]" by simp
  have h3: "[3 :: byte] \<noteq> []" by simp
  have h4: "length [3 :: byte] < 1 + 1" by simp
  show ?thesis
    using h1 h2 h3 h4 decrypt_short_final_block [OF h1 h2 h3 h4] by blast
qed

text \<open>
  The claim C2 fails on a ciphertext of 3 bytes under a key with blocks of 2 bytes: both
  functions return decoded bytes, the last from the block of one byte, and raise nothing.
\<close>

theorem decrypt_accepts_odd_length:
  "chunksize_of cpython_log (composite (RSAKey_of_keys (5, 173, 323))) = Inr 1
   \<and> \<not> (1 + 1) dvd length [1, 2, 3 :: byte]
   \<and> decrypt cpython_log (RSAKey_of_keys (5, 173, 323)) [1, 2, 3] = Inr [216, 29]
   \<and> decrypt_generator cpython_log (RSAKey_of_keys (5, 173, 323)) [1, 2, 3] = ([[216], [29]], None)"
proof -
  have "\<not> (1 + 1) dvd length [1, 2, 3 :: byte]"
    by (simp add: numeral_2_eq_2 [symmetric])
  moreover have "chunksize_of cpython_log (composite (RSAKey_of_keys (5, 173, 323))) = Inr 1"
    by (simp add: RSAKey_of_keys_def chunksize_of_def cpython_log_def py_int_def)
  moreover have "decrypt cpython_log (RSAKey_of_keys (5, 173, 323)) [1, 2, 3] = Inr [216, 29]"
    by (simp add: codec_eval del: add_2_eq_Suc add_2_eq_Suc')
  moreover have "decrypt_generator cpython_log (RSAKey_of_keys (5, 173, 323)) [1, 2, 3] = ([[216], [29]], None)"
    by (simp add: codec_eval del: add_2_eq_Suc add_2_eq_Suc')
  ultimately show ?thesis by blast
qed

end
